theory Spec2Isabelle
  imports Main "HOL-Library.Sublist" "HOL-Library.AList"
begin

section \<open>Strings and patterns\<close>

text \<open>
  Python strings are modelled as \<open>string\<close>.  The test \<open>x in s\<close> of the source is
  \<^const>\<open>sublist\<close> (a contiguous occurrence).  The caller-supplied regular expression
  \<open>pattern\<close> is represented by the predicate \<open>pat\<close> that \<open>re.match(pattern, _)\<close> decides,
  and the caller-supplied \<open>glob_pattern\<close> by the predicate on paths that it accepts.
\<close>

definition marker :: "string \<Rightarrow> bool" where
  "marker s = sublist ''/image_mounter_'' s"

text \<open>\<open>str.replace(old, new)\<close>: all non-overlapping occurrences, left to right.\<close>

fun replace :: "string \<Rightarrow> string \<Rightarrow> string \<Rightarrow> string" where
  "replace old new [] = (if old = [] then new else [])"
| "replace old new (c # cs) =
     (if old = [] then new @ c # replace old new cs
      else if prefix old (c # cs) then new @ replace old new (drop (length old - 1) cs)
      else c # replace old new cs)"

text \<open>\<open>str.strip()\<close>: the white space of \<open>str.isspace\<close> among the first 256 code points.\<close>

definition is_space :: "char \<Rightarrow> bool" where
  "is_space c = (c \<in> set [CHR 0x09, CHR 0x0A, CHR 0x0B, CHR 0x0C, CHR 0x0D, CHR 0x1C,
                           CHR 0x1D, CHR 0x1E, CHR 0x1F, CHR 0x20, CHR 0x85, CHR 0xA0])"

definition strip :: "string \<Rightarrow> string" where
  "strip s = rev (dropWhile is_space (rev (dropWhile is_space s)))"

text \<open>
  The three regular expressions of the source have the shape
  \<open>(.+) sep\<^sub>1 (.+) sep\<^sub>2 \<dots> (.+) sep\<^sub>n\<close> (the trailing \<open>.*\<close> of the loopback expression
  always matches).  \<open>re.match\<close> anchors at the start only, every group is greedy and
  backtracks from the longest candidate, and \<open>.\<close> matches everything but a newline.
\<close>

fun first_some :: "('a \<Rightarrow> 'b option) \<Rightarrow> 'a list \<Rightarrow> 'b option" where
  "first_some f [] = None"
| "first_some f (x # xs) = (case f x of Some y \<Rightarrow> Some y | None \<Rightarrow> first_some f xs)"

definition dot_plus :: "string \<Rightarrow> bool" where
  "dot_plus g = (g \<noteq> [] \<and> CHR 0x0A \<notin> set g)"

fun match_groups :: "string list \<Rightarrow> string \<Rightarrow> string list option" where
  "match_groups [] s = Some []"
| "match_groups (sep # seps) s =
     first_some
       (\<lambda>k. if dot_plus (take k s) \<and> prefix sep (drop k s)
            then map_option ((#) (take k s)) (match_groups seps (drop (k + length sep) s))
            else None)
       (rev [1..<Suc (length s)])"

section \<open>The tables read from the system\<close>

text \<open>
  \<open>mountpoints\<close> and \<open>loopbacks\<close> are Python dictionaries: association lists in insertion
  order, a repeated key keeping its place and taking the new value.
\<close>

type_synonym mounts = "(string \<times> string \<times> string \<times> string) list"

fun read_mounts :: "string list \<Rightarrow> mounts \<Rightarrow> mounts" where
  "read_mounts [] mountpoints = mountpoints"
| "read_mounts (line # rest) mountpoints =
     (case match_groups ['' on '', '' type '', '' ('', '')''] line of
        Some [g1, g2, g3, g4] \<Rightarrow> read_mounts rest (AList.update g2 (g1, g3, g4) mountpoints)
      | _ \<Rightarrow> read_mounts rest mountpoints)"

fun read_loopbacks :: "string list \<Rightarrow> (string \<times> string) list \<Rightarrow> (string \<times> string) list" where
  "read_loopbacks [] loopbacks = loopbacks"
| "read_loopbacks (line # rest) loopbacks =
     (case match_groups ['': '', '' ('', '')''] line of
        Some [g1, g2, g3] \<Rightarrow> read_loopbacks rest (AList.update g1 g3 loopbacks)
      | _ \<Rightarrow> read_loopbacks rest loopbacks)"

section \<open>The system the program runs on\<close>

text \<open>
  The file system is a list of directory entries, path by path, in listing order; the
  kernel's mount points are a list of paths.  Paths are taken as the program spells them.
\<close>

datatype node = File | Dir | Link string

record world =
  nodes :: "(string \<times> node) list"
  mounted :: "string list"

datatype error = ENOENT | EISDIR | ENOTDIR | ENOTEMPTY | EBUSY | CalledProcessError

datatype op = Exec "string list" | Remove string | Unlink string | Rmdir string
  | Putenv string string | Sleep

text \<open>
  What the program cannot decide is a parameter: \<open>run\<close> is the effect of a subprocess
  (\<open>None\<close> when \<open>subprocess\<close> raises, else the lines of its output), \<open>tick\<close> what happens
  to the system during \<open>time.sleep(1)\<close>.
\<close>

record sys =
  run :: "string list \<Rightarrow> world \<Rightarrow> string list option \<times> world"
  tick :: "world \<Rightarrow> world"

record state =
  os :: world
  environ :: "string \<rightharpoonup> string"
  trace :: "op list"

definition lstat :: "world \<Rightarrow> string \<Rightarrow> node option" where
  "lstat w p = map_of (nodes w) p"

fun stat_fuel :: "nat \<Rightarrow> world \<Rightarrow> string \<Rightarrow> node option" where
  "stat_fuel 0 w p = None"
| "stat_fuel (Suc n) w p =
     (case lstat w p of
        None \<Rightarrow> None
      | Some (Link t) \<Rightarrow> stat_fuel n w t
      | Some k \<Rightarrow> Some k)"

definition stat :: "world \<Rightarrow> string \<Rightarrow> node option" where
  "stat w p = stat_fuel 40 w p"

definition path_exists :: "world \<Rightarrow> string \<Rightarrow> bool" where
  "path_exists w p = (stat w p \<noteq> None)"

definition isdir :: "world \<Rightarrow> string \<Rightarrow> bool" where
  "isdir w p = (stat w p = Some Dir)"

definition islink :: "world \<Rightarrow> string \<Rightarrow> bool" where
  "islink w p = (case lstat w p of Some (Link t) \<Rightarrow> True | _ \<Rightarrow> False)"

text \<open>\<open>os.path.ismount\<close>: a path that does not exist or is a symbolic link is no mount point.\<close>

definition ismount :: "world \<Rightarrow> string \<Rightarrow> bool" where
  "ismount w p =
     (case lstat w p of
        None \<Rightarrow> False
      | Some (Link t) \<Rightarrow> False
      | Some k \<Rightarrow> p \<in> set (mounted w))"

definition path_join :: "string \<Rightarrow> string \<Rightarrow> string" where
  "path_join a b =
     (if prefix ''/'' b then b
      else if a = [] \<or> last a = CHR ''/'' then a @ b
      else a @ ''/'' @ b)"

definition dirname :: "string \<Rightarrow> string" where
  "dirname p =
     (let head = rev (dropWhile (\<lambda>c. c \<noteq> CHR ''/'') (rev p))
      in if head \<noteq> [] \<and> list_ex (\<lambda>c. c \<noteq> CHR ''/'') head
         then rev (dropWhile (\<lambda>c. c = CHR ''/'') (rev head))
         else head)"

definition has_entries :: "world \<Rightarrow> string \<Rightarrow> bool" where
  "has_entries w p = list_ex (\<lambda>q. q \<noteq> p \<and> dirname q = p) (map fst (nodes w))"

definition del_node :: "string \<Rightarrow> state \<Rightarrow> state" where
  "del_node p s = s\<lparr>os := (os s)\<lparr>nodes := AList.delete p (nodes (os s))\<rparr>\<rparr>"

definition logged :: "op \<Rightarrow> state \<Rightarrow> state" where
  "logged x s = s\<lparr>trace := trace s @ [x]\<rparr>"

definition os_remove :: "string \<Rightarrow> state \<Rightarrow> (error + unit) \<times> state" where
  "os_remove p s =
     (let s' = logged (Remove p) s in
      case lstat (os s) p of
        None \<Rightarrow> (Inl ENOENT, s')
      | Some Dir \<Rightarrow> (Inl EISDIR, s')
      | Some k \<Rightarrow> (Inr (), del_node p s'))"

definition os_unlink :: "string \<Rightarrow> state \<Rightarrow> (error + unit) \<times> state" where
  "os_unlink p s =
     (let s' = logged (Unlink p) s in
      case lstat (os s) p of
        None \<Rightarrow> (Inl ENOENT, s')
      | Some Dir \<Rightarrow> (Inl EISDIR, s')
      | Some k \<Rightarrow> (Inr (), del_node p s'))"

definition os_rmdir :: "string \<Rightarrow> state \<Rightarrow> (error + unit) \<times> state" where
  "os_rmdir p s =
     (let s' = logged (Rmdir p) s in
      case lstat (os s) p of
        None \<Rightarrow> (Inl ENOENT, s')
      | Some Dir \<Rightarrow>
          if p \<in> set (mounted (os s)) then (Inl EBUSY, s')
          else if has_entries (os s) p then (Inl ENOTEMPTY, s')
          else (Inr (), del_node p s')
      | Some k \<Rightarrow> (Inl ENOTDIR, s'))"

definition sleep :: "sys \<Rightarrow> state \<Rightarrow> state" where
  "sleep sy s = logged Sleep (s\<lparr>os := tick sy (os s)\<rparr>)"

definition putenv :: "string \<Rightarrow> string \<Rightarrow> state \<Rightarrow> state" where
  "putenv k v s = logged (Putenv k v) (s\<lparr>environ := (environ s)(k \<mapsto> v)\<rparr>)"

text \<open>\<open>glob.glob\<close>: the existing paths that the pattern accepts, in listing order.\<close>

definition glob :: "(string \<Rightarrow> bool) \<Rightarrow> world \<Rightarrow> string list" where
  "glob accepts w = filter accepts (map fst (nodes w))"

text \<open>The fixed pattern \<open>/tmp/image_mounter_*\<close>: the star stays inside one path component.\<close>

definition image_mounter_glob :: "string \<Rightarrow> bool" where
  "image_mounter_glob p =
     (take 19 p = ''/tmp/image_mounter_'' \<and> CHR ''/'' \<notin> set (drop 19 p))"

section \<open>Running commands\<close>

text \<open>
  \<open>check_call\<close> and \<open>check_output\<close> (the source writes them with a trailing underscore)
  run a subprocess and raise when it fails;
  \<open>check_output\<close> returns the output, here already split into lines.
\<close>

definition check_output :: "sys \<Rightarrow> string list \<Rightarrow> state \<Rightarrow> (error + string list) \<times> state" where
  "check_output sy cmd s =
     (case run sy cmd (os s) of
        (None, w) \<Rightarrow> (Inl CalledProcessError, logged (Exec cmd) (s\<lparr>os := w\<rparr>))
      | (Some out, w) \<Rightarrow> (Inr out, logged (Exec cmd) (s\<lparr>os := w\<rparr>)))"

definition check_call :: "sys \<Rightarrow> string list \<Rightarrow> state \<Rightarrow> (error + unit) \<times> state" where
  "check_call sy cmd s =
     (case run sy cmd (os s) of
        (None, w) \<Rightarrow> (Inl CalledProcessError, logged (Exec cmd) (s\<lparr>os := w\<rparr>))
      | (Some out, w) \<Rightarrow> (Inr (), logged (Exec cmd) (s\<lparr>os := w\<rparr>)))"

section \<open>clean_unmount\<close>

text \<open>The polling loop \<open>for _ in range(tries)\<close>, leaving at the \<open>break\<close>.\<close>

fun poll :: "sys \<Rightarrow> string \<Rightarrow> nat \<Rightarrow> state \<Rightarrow> (error + unit) \<times> state" where
  "poll sy mountpoint 0 s = (Inr (), s)"
| "poll sy mountpoint (Suc n) s =
     (if \<not> ismount (os s) mountpoint then
        (if islink (os s) mountpoint then os_unlink mountpoint s else os_rmdir mountpoint s)
      else poll sy mountpoint n (sleep sy s))"

text \<open>The part of \<open>clean_unmount\<close> after the unmount: \<open>Remove mountpoint only if needed\<close>.\<close>

definition remove_mountpoint ::
  "sys \<Rightarrow> string \<Rightarrow> int \<Rightarrow> bool \<Rightarrow> state \<Rightarrow> (error + bool) \<times> state" where
  "remove_mountpoint sy mountpoint tries rmdir s =
     (if \<not> rmdir then (Inr True, s)
      else case poll sy mountpoint (nat tries) s of
        (Inl e, s') \<Rightarrow> (Inl e, s')
      | (Inr u, s') \<Rightarrow> (if isdir (os s') mountpoint then (Inr False, s') else (Inr True, s')))"

text \<open>
  The first part of \<open>clean_unmount\<close>, up to the unmount.  It raises (\<open>Inl\<close>), or takes
  the \<open>return False\<close> of the \<open>except\<close> branch (\<open>Inr False\<close>), or goes on to the removal
  of the mount point (\<open>Inr True\<close>).  \<open>cmd\<close> is the list with the mount point appended.
\<close>

definition unmount_step ::
  "sys \<Rightarrow> string list \<Rightarrow> string \<Rightarrow> state \<Rightarrow> (error + bool) \<times> state" where
  "unmount_step sy cmd mountpoint s =
     (if path_exists (os s) (path_join mountpoint ''avfs'') then
        (case os_remove (path_join mountpoint ''avfs'') s of
           (Inl e, s1) \<Rightarrow> (Inl e, s1)
         | (Inr u, s1) \<Rightarrow> (Inr True, s1))
      else if islink (os s) mountpoint then (Inr True, s)
      else
        (case check_call sy cmd s of
           (Inl e, s1) \<Rightarrow> (Inr False, s1)
         | (Inr u, s1) \<Rightarrow> (Inr True, s1)))"

text \<open>
  \<open>clean_unmount\<close> returns its result (or the exception it raises), the list object
  \<open>cmd\<close> as the call leaves it, and the new state.
\<close>

definition clean_unmount ::
  "sys \<Rightarrow> string list \<Rightarrow> string \<Rightarrow> int \<Rightarrow> bool \<Rightarrow> state
     \<Rightarrow> (error + bool) \<times> string list \<times> state" where
  "clean_unmount sy cmd mountpoint tries rmdir s =
     (case unmount_step sy (cmd @ [mountpoint]) mountpoint s of
        (Inl e, s1) \<Rightarrow> (Inl e, cmd @ [mountpoint], s1)
      | (Inr False, s1) \<Rightarrow> (Inr False, cmd @ [mountpoint], s1)
      | (Inr True, s1) \<Rightarrow>
          (case remove_mountpoint sy mountpoint tries rmdir s1 of
             (r, s2) \<Rightarrow> (r, cmd @ [mountpoint], s2)))"

section \<open>force_clean\<close>

text \<open>The descriptions put on the list: \<open>'umount {0}'.format(mountpoint)\<close> and the like.\<close>

definition umount_cmd :: "string \<Rightarrow> string" where
  "umount_cmd mountpoint = ''umount '' @ mountpoint"

definition rm_cmd :: "string \<Rightarrow> string" where
  "rm_cmd folder = ''rm -Rf '' @ folder"

definition fusermount_cmd :: "string \<Rightarrow> string" where
  "fusermount_cmd mountpoint = ''fusermount -u '' @ mountpoint"

definition lvchange_cmd :: "string \<Rightarrow> string" where
  "lvchange_cmd vgname = ''lvchange -a n '' @ vgname"

definition losetup_cmd :: "string \<Rightarrow> string" where
  "losetup_cmd pvname = ''losetup -d '' @ pvname"

text \<open>Stage 1: \<open>start by unmounting all bind mounts\<close>.  An exception leaves the loop.\<close>

fun unmount_binds ::
  "sys \<Rightarrow> bool \<Rightarrow> (string \<Rightarrow> bool) \<Rightarrow> mounts \<Rightarrow> string list \<Rightarrow> state
     \<Rightarrow> (error + string list) \<times> state" where
  "unmount_binds sy execute pat [] commands s = (Inr commands, s)"
| "unmount_binds sy execute pat ((mountpoint, orig, fs, opts) # rest) commands s =
     (if sublist ''bind'' opts \<and> pat mountpoint then
        (if execute then
           (case clean_unmount sy [''umount''] mountpoint 5 False s of
              (Inl e, c, s') \<Rightarrow> (Inl e, s')
            | (Inr r, c, s') \<Rightarrow>
                unmount_binds sy execute pat rest (commands @ [umount_cmd mountpoint]) s')
         else unmount_binds sy execute pat rest (commands @ [umount_cmd mountpoint]) s)
      else unmount_binds sy execute pat rest commands s)"

text \<open>Stage 2: \<open>now unmount all mounts originating from an image_mounter\<close>.\<close>

fun unmount_mounts ::
  "sys \<Rightarrow> bool \<Rightarrow> (string \<Rightarrow> bool) \<Rightarrow> mounts \<Rightarrow> string list \<Rightarrow> state
     \<Rightarrow> (error + string list) \<times> state" where
  "unmount_mounts sy execute pat [] commands s = (Inr commands, s)"
| "unmount_mounts sy execute pat ((mountpoint, orig, fs, opts) # rest) commands s =
     (if \<not> sublist ''bind'' opts \<and> (marker orig \<or> pat mountpoint) then
        (if execute then
           (case clean_unmount sy [''umount''] mountpoint 5 True s of
              (Inl e, c, s') \<Rightarrow> (Inl e, s')
            | (Inr r, c, s') \<Rightarrow>
                unmount_mounts sy execute pat rest
                  (commands @ [umount_cmd mountpoint, rm_cmd mountpoint]) s')
         else unmount_mounts sy execute pat rest
                (commands @ [umount_cmd mountpoint, rm_cmd mountpoint]) s)
      else unmount_mounts sy execute pat rest commands s)"

text \<open>
  Stage 3: the lines of \<open>pvdisplay\<close>, with the accumulators \<open>pvname\<close> and \<open>vgname\<close>.
  \<open>next_names\<close> is what one line does to them (the \<open>if\<close>/\<open>elif\<close> chain).
  A missing key of \<open>loopbacks\<close> and a failing command are caught inside the loop.
\<close>

definition next_names ::
  "string \<Rightarrow> string option \<Rightarrow> string option \<Rightarrow> string option \<times> string option" where
  "next_names line pvname vgname =
     (if sublist ''--- Physical volume ---'' line then (None, None)
      else if sublist ''PV Name'' line
        then (Some (strip (replace ''PV Name'' [] line)), vgname)
      else if sublist ''VG Name'' line
        then (pvname, Some (strip (replace ''VG Name'' [] line)))
      else (pvname, vgname))"

fun deactivate_groups ::
  "sys \<Rightarrow> bool \<Rightarrow> (string \<times> string) list \<Rightarrow> string list \<Rightarrow> string option \<Rightarrow> string option
     \<Rightarrow> string list \<Rightarrow> state \<Rightarrow> string list \<times> state" where
  "deactivate_groups sy execute loopbacks [] pvname vgname commands s = (commands, s)"
| "deactivate_groups sy execute loopbacks (line # rest) pvname vgname commands s =
     (case next_names line pvname vgname of
        (Some pv, Some vg) \<Rightarrow>
          if pv \<noteq> [] \<and> vg \<noteq> [] then
            (case map_of loopbacks pv of
               None \<Rightarrow> deactivate_groups sy execute loopbacks rest None None commands s
             | Some backing \<Rightarrow>
                 if marker backing then
                   (if execute then
                      (case check_output sy [''lvchange'', ''-a'', ''n'', vg] s of
                         (Inl e, s1) \<Rightarrow>
                           deactivate_groups sy execute loopbacks rest None None
                             (commands @ [lvchange_cmd vg, losetup_cmd pv]) s1
                       | (Inr out, s1) \<Rightarrow>
                           deactivate_groups sy execute loopbacks rest None None
                             (commands @ [lvchange_cmd vg, losetup_cmd pv])
                             (snd (check_output sy [''losetup'', ''-d'', pv] s1)))
                    else deactivate_groups sy execute loopbacks rest None None
                           (commands @ [lvchange_cmd vg, losetup_cmd pv]) s)
                 else deactivate_groups sy execute loopbacks rest None None commands s)
          else deactivate_groups sy execute loopbacks rest (Some pv) (Some vg) commands s
      | (pvname', vgname') \<Rightarrow>
          deactivate_groups sy execute loopbacks rest pvname' vgname' commands s)"

text \<open>Stage 4: \<open>unmount base image\<close>, whatever the options of the mount.\<close>

fun unmount_base ::
  "sys \<Rightarrow> bool \<Rightarrow> mounts \<Rightarrow> string list \<Rightarrow> state \<Rightarrow> (error + string list) \<times> state" where
  "unmount_base sy execute [] commands s = (Inr commands, s)"
| "unmount_base sy execute ((mountpoint, orig, fs, opts) # rest) commands s =
     (if marker mountpoint then
        (if execute then
           (case clean_unmount sy [''fusermount'', ''-u''] mountpoint 5 True s of
              (Inl e, c, s') \<Rightarrow> (Inl e, s')
            | (Inr r, c, s') \<Rightarrow>
                unmount_base sy execute rest
                  (commands @ [fusermount_cmd mountpoint, rm_cmd mountpoint]) s')
         else unmount_base sy execute rest
                (commands @ [fusermount_cmd mountpoint, rm_cmd mountpoint]) s)
      else unmount_base sy execute rest commands s)"

text \<open>
  Stages 5 and 6: \<open>finalize by cleaning /tmp\<close>.  The list of folders is what \<open>glob.glob\<close>
  returned when the loop started; \<open>os.rmdir\<close> is tried and its failure ignored.
\<close>

fun clean_tmp ::
  "bool \<Rightarrow> (string \<Rightarrow> bool) \<Rightarrow> string list \<Rightarrow> string list \<Rightarrow> state \<Rightarrow> string list \<times> state" where
  "clean_tmp execute pat [] commands s = (commands, s)"
| "clean_tmp execute pat (folder # rest) commands s =
     (if pat folder then
        clean_tmp execute pat rest
          (if rm_cmd folder \<notin> set commands then commands @ [rm_cmd folder]
           else commands)
          (if execute then snd (os_rmdir folder s) else s)
      else clean_tmp execute pat rest commands s)"

fun clean_image_mounter ::
  "bool \<Rightarrow> string list \<Rightarrow> string list \<Rightarrow> state \<Rightarrow> string list \<times> state" where
  "clean_image_mounter execute [] commands s = (commands, s)"
| "clean_image_mounter execute (folder # rest) commands s =
     clean_image_mounter execute rest
       (if rm_cmd folder \<notin> set commands then commands @ [rm_cmd folder]
        else commands)
       (if execute then snd (os_rmdir folder s) else s)"

text \<open>
  The three \<open>try\<close> blocks that read the tables.  A listing command that fails leaves
  its table empty; the loop over the lines of \<open>pvdisplay\<close> is inside the third block.
\<close>

definition find_mountpoints :: "sys \<Rightarrow> state \<Rightarrow> mounts \<times> state" where
  "find_mountpoints sy s =
     (case check_output sy [''mount''] s of
        (Inl e, s') \<Rightarrow> ([], s')
      | (Inr out, s') \<Rightarrow> (read_mounts out [], s'))"

definition find_loopbacks :: "sys \<Rightarrow> state \<Rightarrow> (string \<times> string) list \<times> state" where
  "find_loopbacks sy s =
     (case check_output sy [''losetup'', ''-a''] s of
        (Inl e, s') \<Rightarrow> ([], s')
      | (Inr out, s') \<Rightarrow> (read_loopbacks out [], s'))"

definition find_volume_groups ::
  "sys \<Rightarrow> bool \<Rightarrow> (string \<times> string) list \<Rightarrow> string list \<Rightarrow> state \<Rightarrow> string list \<times> state" where
  "find_volume_groups sy execute loopbacks commands s =
     (case check_output sy [''pvdisplay''] s of
        (Inl e, s') \<Rightarrow> (commands, s')
      | (Inr out, s') \<Rightarrow> deactivate_groups sy execute loopbacks out None None commands s')"

text \<open>
  \<open>force_clean(execute, pattern, glob_pattern)\<close>: the list of commands it returns, or the
  exception that leaves it, and the state it leaves behind.
\<close>

definition force_clean ::
  "sys \<Rightarrow> bool \<Rightarrow> (string \<Rightarrow> bool) \<Rightarrow> (string \<Rightarrow> bool) \<Rightarrow> state
     \<Rightarrow> (error + string list) \<times> state" where
  "force_clean sy execute pat glob_pattern s0 =
     (let s1 = putenv ''LVM_SUPPRESS_FD_WARNINGS'' ''1'' s0;
          (mountpoints, s2) = find_mountpoints sy s1
      in case unmount_binds sy execute pat mountpoints [] s2 of
           (Inl e, s3) \<Rightarrow> (Inl e, s3)
         | (Inr commands, s3) \<Rightarrow>
        (case unmount_mounts sy execute pat mountpoints commands s3 of
           (Inl e, s4) \<Rightarrow> (Inl e, s4)
         | (Inr commands, s4) \<Rightarrow>
          (let (loopbacks, s5) = find_loopbacks sy s4;
               (commands, s7) = find_volume_groups sy execute loopbacks commands s5
           in case unmount_base sy execute mountpoints commands s7 of
                (Inl e, s8) \<Rightarrow> (Inl e, s8)
              | (Inr commands, s8) \<Rightarrow>
                  (let (commands, s9) =
                         clean_tmp execute pat (glob glob_pattern (os s8)) commands s8;
                       (commands, s10) =
                         clean_image_mounter execute (glob image_mounter_glob (os s9)) commands s9
                   in (Inr commands, s10)))))"

section \<open>A reference host\<close>

text \<open>
  A host for the worked examples: the three listing commands print fixed lines, \<open>umount\<close>
  and \<open>fusermount -u\<close> succeed on a path that is mounted and fail otherwise, every other
  command fails, and nothing happens while the program sleeps.
\<close>

definition host_run ::
  "string list \<Rightarrow> string list \<Rightarrow> string list \<Rightarrow> string list \<Rightarrow> world
     \<Rightarrow> string list option \<times> world" where
  "host_run mount_out losetup_out pvdisplay_out cmd w =
     (if cmd = [''mount''] then (Some mount_out, w)
      else if cmd = [''losetup'', ''-a''] then (Some losetup_out, w)
      else if cmd = [''pvdisplay''] then (Some pvdisplay_out, w)
      else if (take 1 cmd = [''umount''] \<or> take 2 cmd = [''fusermount'', ''-u''])
              \<and> cmd \<noteq> [] \<and> last cmd \<in> set (mounted w)
        then (Some [], w\<lparr>mounted := removeAll (last cmd) (mounted w)\<rparr>)
      else (None, w))"

definition host :: "string list \<Rightarrow> string list \<Rightarrow> string list \<Rightarrow> sys" where
  "host mount_out losetup_out pvdisplay_out =
     \<lparr>run = host_run mount_out losetup_out pvdisplay_out, tick = (\<lambda>w. w)\<rparr>"

text \<open>The default \<open>glob_pattern\<close> of \<open>force_clean\<close>, \<open>/tmp/im_*\<close>.\<close>

definition default_glob :: "string \<Rightarrow> bool" where
  "default_glob p = (take 8 p = ''/tmp/im_'' \<and> CHR ''/'' \<notin> set (drop 8 p))"

text \<open>
  The default \<open>pattern\<close>, \<open>.*/im_[0-9.]+_.+\<close>, as \<open>re.match\<close> decides it: somewhere
  in the first line \<open>/im_\<close>, digits and dots, an underscore and one more character.
\<close>

definition im_name :: "string \<Rightarrow> bool" where
  "im_name t =
     (prefix ''/im_'' t \<and>
      (let digits = takeWhile (\<lambda>c. c \<in> set ''0123456789.'') (drop 4 t);
           r = drop (4 + length digits) t
       in digits \<noteq> [] \<and> prefix ''_'' r \<and> dot_plus (take 1 (drop 1 r))))"

fun default_pattern :: "string \<Rightarrow> bool" where
  "default_pattern [] = False"
| "default_pattern (c # cs) = (im_name (c # cs) \<or> (c \<noteq> CHR 0x0A \<and> default_pattern cs))"

text \<open>A host whose commands report success and change nothing (a lazy unmount).\<close>

definition lazy_host :: sys where
  "lazy_host = \<lparr>run = (\<lambda>cmd w. (Some [], w)), tick = (\<lambda>w. w)\<rparr>"

section \<open>Facts about the system model\<close>

lemma stat_missing: "lstat w p = None \<Longrightarrow> stat w p = None"
  by (simp add: stat_def numeral_eq_Suc)

lemma lstat_del_node [simp]: "lstat (os (del_node p s)) p = None"
  by (simp add: lstat_def del_node_def delete_conv')

lemma trace_del_node [simp]: "trace (del_node p s) = trace s"
  by (simp add: del_node_def)

lemma environ_del_node [simp]: "environ (del_node p s) = environ s"
  by (simp add: del_node_def)

lemma os_logged [simp]: "os (logged x s) = os s"
  by (simp add: logged_def)

lemma trace_logged [simp]: "trace (logged x s) = trace s @ [x]"
  by (simp add: logged_def)

lemma environ_logged [simp]: "environ (logged x s) = environ s"
  by (simp add: logged_def)

lemma del_node_logged: "del_node p (logged x s) = logged x (del_node p s)"
  by (simp add: del_node_def logged_def)

section \<open>clean_unmount: the claims\<close>

text \<open>
  C10.  \<open>clean_unmount\<close> appends the mount point to the list object \<open>cmd\<close> it is given:
  whatever the call does, the list it leaves is one element longer, and a second call
  on the same list object finds the first mount point in it and adds its own.
\<close>

theorem clean_unmount_appends_to_cmd:
  "fst (snd (clean_unmount sy cmd mountpoint tries rmdir s)) = cmd @ [mountpoint]
   \<and> length (fst (snd (clean_unmount sy cmd mountpoint tries rmdir s))) = Suc (length cmd)
   \<and> fst (snd (clean_unmount sy
        (fst (snd (clean_unmount sy cmd mountpoint tries rmdir s))) mountpoint2 tries2 rmdir2 s2))
       = cmd @ [mountpoint, mountpoint2]"
proof -
  have one: "fst (snd (clean_unmount sy c m t r x)) = c @ [m]" for c m t r x
    by (simp add: clean_unmount_def split: prod.splits sum.splits bool.splits)
  show ?thesis by (simp add: one)
qed

lemma islink_not_mount: "islink w p \<Longrightarrow> \<not> ismount w p"
  by (auto simp: islink_def ismount_def split: option.splits node.splits)

lemma os_unlink_link:
  "islink (os s) p \<Longrightarrow> os_unlink p s = (Inr (), del_node p (logged (Unlink p) s))"
  by (auto simp: islink_def os_unlink_def Let_def split: option.splits node.splits)

lemma isdir_del_node [simp]: "\<not> isdir (os (del_node p s)) p"
  by (simp add: isdir_def stat_missing)

lemma os_sleep [simp]: "os (sleep sy s) = tick sy (os s)"
  by (simp add: sleep_def)

lemma poll_mounted:
  "\<forall>i<n. ismount ((tick sy ^^ i) (os s)) mountpoint \<Longrightarrow>
   poll sy mountpoint n s =
     (Inr (), s\<lparr>os := (tick sy ^^ n) (os s), trace := trace s @ replicate n Sleep\<rparr>)"
proof (induction n arbitrary: s)
  case 0
  then show ?case by simp
next
  case (Suc n)
  from Suc.prems have now: "ismount (os s) mountpoint" by force
  have later: "\<forall>i<n. ismount ((tick sy ^^ i) (os (sleep sy s))) mountpoint"
  proof (intro allI impI)
    fix i assume "i < n"
    with Suc.prems have "ismount ((tick sy ^^ Suc i) (os s)) mountpoint" by blast
    then show "ismount ((tick sy ^^ i) (os (sleep sy s))) mountpoint"
      by (simp add: funpow_swap1)
  qed
  show ?case
    using now Suc.IH [OF later]
    by (simp add: funpow_swap1 sleep_def logged_def replicate_append_same)
qed

text \<open>
  C8.  A mount point that is a symbolic link and has no \<open>avfs\<close> entry: with
  \<open>rmdir=True\<close> and at least one poll (\<open>tries\<close> is 5 unless the caller says otherwise)
  \<open>clean_unmount\<close> runs no command at all, unlinks the link in its first poll (a link
  never counts as mounted) and returns \<open>True\<close>.  The state it leaves differs from the
  one it found by the one \<open>Unlink\<close> in the trace and the missing entry.
\<close>

theorem clean_unmount_symlink:
  assumes "islink (os s) mountpoint"
    and "\<not> path_exists (os s) (path_join mountpoint ''avfs'')"
    and "0 < tries"
  shows "clean_unmount sy cmd mountpoint tries True s =
           (Inr True, cmd @ [mountpoint], del_node mountpoint (logged (Unlink mountpoint) s))"
proof -
  from assms(3) obtain n where n: "nat tries = Suc n"
    by (cases "nat tries") auto
  have step: "unmount_step sy (cmd @ [mountpoint]) mountpoint s = (Inr True, s)"
    using assms(1,2) by (simp add: unmount_step_def)
  have "poll sy mountpoint (nat tries) s =
          (Inr (), del_node mountpoint (logged (Unlink mountpoint) s))"
    using assms(1) by (simp add: n islink_not_mount os_unlink_link)
  then have "remove_mountpoint sy mountpoint tries True s =
          (Inr True, del_node mountpoint (logged (Unlink mountpoint) s))"
    by (simp add: remove_mountpoint_def)
  with step show ?thesis by (simp add: clean_unmount_def)
qed

definition linked_mount :: state where
  "linked_mount =
     \<lparr>os = \<lparr>nodes = [(''/tmp/im_1_a'', Link ''/home/u/.avfs/img#''), (''/tmp/im_2_b'', Dir)],
            mounted = []\<rparr>,
      environ = Map.empty, trace = []\<rparr>"

theorem clean_unmount_symlink_witness:
  "clean_unmount (host [] [] []) [''umount''] ''/tmp/im_1_a'' 5 True linked_mount =
     (Inr True, [''umount'', ''/tmp/im_1_a''],
      \<lparr>os = \<lparr>nodes = [(''/tmp/im_2_b'', Dir)], mounted = []\<rparr>,
       environ = Map.empty, trace = [Unlink ''/tmp/im_1_a'']\<rparr>)"
proof -
  have a: "islink (os linked_mount) ''/tmp/im_1_a''"
    by (simp add: linked_mount_def islink_def lstat_def)
  have b: "\<not> path_exists (os linked_mount) (path_join ''/tmp/im_1_a'' ''avfs'')"
    by (simp add: linked_mount_def path_exists_def stat_missing lstat_def path_join_def)
  have c: "(0::int) < 5" by simp
  show ?thesis
    using clean_unmount_symlink [OF a b c, of "host [] [] []" "[''umount'']"]
    by (simp add: linked_mount_def del_node_def logged_def AList.delete_eq)
qed

text \<open>
  C9.  The polling loop is reached (the first part of \<open>clean_unmount\<close> neither raised nor
  returned, and left the state \<open>s1\<close>), each of the \<open>tries\<close> polls, one second apart, finds
  the mount point mounted, and the mount point is a directory when the loop is over.
  Then \<open>clean_unmount\<close> with \<open>rmdir=True\<close> returns \<open>False\<close> and raises nothing, and all it
  has done since \<open>s1\<close> is to sleep \<open>tries\<close> times: the directory is where it was.
\<close>

theorem clean_unmount_still_mounted:
  assumes "unmount_step sy (cmd @ [mountpoint]) mountpoint s = (Inr True, s1)"
    and "\<forall>i < nat tries. ismount ((tick sy ^^ i) (os s1)) mountpoint"
    and "isdir ((tick sy ^^ nat tries) (os s1)) mountpoint"
  shows "clean_unmount sy cmd mountpoint tries True s =
           (Inr False, cmd @ [mountpoint],
            s1\<lparr>os := (tick sy ^^ nat tries) (os s1),
               trace := trace s1 @ replicate (nat tries) Sleep\<rparr>)"
  using assms by (simp add: clean_unmount_def remove_mountpoint_def poll_mounted)

definition stuck_mount :: state where
  "stuck_mount =
     \<lparr>os = \<lparr>nodes = [(''/tmp/im_1_a'', Dir)], mounted = [''/tmp/im_1_a'']\<rparr>,
      environ = Map.empty, trace = []\<rparr>"

lemma lazy_ticks [simp]: "(tick lazy_host ^^ n) w = w"
  by (induction n) (simp_all add: lazy_host_def)

lemma stat_dir: "lstat w p = Some Dir \<Longrightarrow> stat w p = Some Dir"
  by (simp add: stat_def numeral_eq_Suc)

theorem clean_unmount_still_mounted_witness:
  "clean_unmount lazy_host [''umount''] ''/tmp/im_1_a'' 5 True stuck_mount =
     (Inr False, [''umount'', ''/tmp/im_1_a''],
      \<lparr>os = \<lparr>nodes = [(''/tmp/im_1_a'', Dir)], mounted = [''/tmp/im_1_a'']\<rparr>,
       environ = Map.empty,
       trace = [Exec [''umount'', ''/tmp/im_1_a''], Sleep, Sleep, Sleep, Sleep, Sleep]\<rparr>)"
proof -
  have a: "unmount_step lazy_host ([''umount''] @ [''/tmp/im_1_a'']) ''/tmp/im_1_a'' stuck_mount
             = (Inr True, logged (Exec [''umount'', ''/tmp/im_1_a'']) stuck_mount)"
    by (simp add: unmount_step_def stuck_mount_def path_exists_def stat_missing lstat_def
          path_join_def islink_def check_call_def lazy_host_def)
  have b: "\<forall>i < nat 5. ismount ((tick lazy_host ^^ i)
             (os (logged (Exec [''umount'', ''/tmp/im_1_a'']) stuck_mount))) ''/tmp/im_1_a''"
    by (simp add: stuck_mount_def ismount_def lstat_def)
  have c: "isdir ((tick lazy_host ^^ nat 5)
             (os (logged (Exec [''umount'', ''/tmp/im_1_a'']) stuck_mount))) ''/tmp/im_1_a''"
    by (simp add: stuck_mount_def isdir_def stat_dir lstat_def)
  have d: "replicate (nat 5) Sleep = [Sleep, Sleep, Sleep, Sleep, Sleep]"
    by (simp add: numeral_eq_Suc)
  show ?thesis
    using clean_unmount_still_mounted [OF a b c]
    by (simp add: stuck_mount_def logged_def d del: nat_numeral)
qed

section \<open>The list of commands as a function of what was read\<close>

text \<open>
  The entries each stage appends depend only on the tables and folder lists the stage
  works on, not on \<open>execute\<close>: every entry is appended before anything is run for it.
\<close>

fun bind_cmds :: "(string \<Rightarrow> bool) \<Rightarrow> mounts \<Rightarrow> string list" where
  "bind_cmds pat [] = []"
| "bind_cmds pat ((mountpoint, orig, fs, opts) # rest) =
     (if sublist ''bind'' opts \<and> pat mountpoint then [umount_cmd mountpoint] else [])
     @ bind_cmds pat rest"

fun mount_cmds :: "(string \<Rightarrow> bool) \<Rightarrow> mounts \<Rightarrow> string list" where
  "mount_cmds pat [] = []"
| "mount_cmds pat ((mountpoint, orig, fs, opts) # rest) =
     (if \<not> sublist ''bind'' opts \<and> (marker orig \<or> pat mountpoint)
      then [umount_cmd mountpoint, rm_cmd mountpoint] else [])
     @ mount_cmds pat rest"

fun base_cmds :: "mounts \<Rightarrow> string list" where
  "base_cmds [] = []"
| "base_cmds ((mountpoint, orig, fs, opts) # rest) =
     (if marker mountpoint then [fusermount_cmd mountpoint, rm_cmd mountpoint]
      else [])
     @ base_cmds rest"

text \<open>The pairs (physical volume, volume group) at which the loop over \<open>pvdisplay\<close> acts.\<close>

fun pv_pairs :: "string list \<Rightarrow> string option \<Rightarrow> string option \<Rightarrow> (string \<times> string) list" where
  "pv_pairs [] pvname vgname = []"
| "pv_pairs (line # rest) pvname vgname =
     (case next_names line pvname vgname of
        (Some pv, Some vg) \<Rightarrow>
          if pv \<noteq> [] \<and> vg \<noteq> [] then (pv, vg) # pv_pairs rest None None
          else pv_pairs rest (Some pv) (Some vg)
      | (pvname', vgname') \<Rightarrow> pv_pairs rest pvname' vgname')"

fun group_cmds :: "(string \<times> string) list \<Rightarrow> (string \<times> string) list \<Rightarrow> string list" where
  "group_cmds loopbacks [] = []"
| "group_cmds loopbacks ((pv, vg) # rest) =
     (case map_of loopbacks pv of
        None \<Rightarrow> []
      | Some backing \<Rightarrow>
          if marker backing then [lvchange_cmd vg, losetup_cmd pv] else [])
     @ group_cmds loopbacks rest"

fun sweep :: "(string \<Rightarrow> bool) \<Rightarrow> string list \<Rightarrow> string list \<Rightarrow> string list" where
  "sweep pat [] commands = commands"
| "sweep pat (folder # rest) commands =
     sweep pat rest
       (if pat folder \<and> rm_cmd folder \<notin> set commands
        then commands @ [rm_cmd folder] else commands)"

definition plan ::
  "(string \<Rightarrow> bool) \<Rightarrow> mounts \<Rightarrow> (string \<times> string) list \<Rightarrow> string list
     \<Rightarrow> string list \<Rightarrow> string list \<Rightarrow> string list" where
  "plan pat mountpoints loopbacks pvdisplay_out folders folders' =
     sweep (\<lambda>p. True) folders'
       (sweep pat folders
          (bind_cmds pat mountpoints @ mount_cmds pat mountpoints
           @ group_cmds loopbacks (pv_pairs pvdisplay_out None None)
           @ base_cmds mountpoints))"

text \<open>The tables as the program would read them in a given state of the system.\<close>

definition mounts_of :: "sys \<Rightarrow> world \<Rightarrow> mounts" where
  "mounts_of sy w = (case fst (run sy [''mount''] w) of None \<Rightarrow> [] | Some out \<Rightarrow> read_mounts out [])"

definition loopbacks_of :: "sys \<Rightarrow> world \<Rightarrow> (string \<times> string) list" where
  "loopbacks_of sy w =
     (case fst (run sy [''losetup'', ''-a''] w) of None \<Rightarrow> [] | Some out \<Rightarrow> read_loopbacks out [])"

definition pvdisplay_of :: "sys \<Rightarrow> world \<Rightarrow> string list" where
  "pvdisplay_of sy w = (case fst (run sy [''pvdisplay''] w) of None \<Rightarrow> [] | Some out \<Rightarrow> out)"

section \<open>The stages, one by one\<close>

lemma unmount_binds_cmds:
  "unmount_binds sy execute pat ms commands s = (Inr cmds, s')
   \<Longrightarrow> cmds = commands @ bind_cmds pat ms"
  by (induction sy execute pat ms commands s rule: unmount_binds.induct)
     (auto split: if_splits prod.splits sum.splits)

lemma unmount_binds_dry:
  "unmount_binds sy False pat ms commands s = (Inr (commands @ bind_cmds pat ms), s)"
  by (induction pat ms arbitrary: commands rule: bind_cmds.induct) auto

lemma unmount_mounts_cmds:
  "unmount_mounts sy execute pat ms commands s = (Inr cmds, s')
   \<Longrightarrow> cmds = commands @ mount_cmds pat ms"
  by (induction sy execute pat ms commands s rule: unmount_mounts.induct)
     (auto split: if_splits prod.splits sum.splits)

lemma unmount_mounts_dry:
  "unmount_mounts sy False pat ms commands s = (Inr (commands @ mount_cmds pat ms), s)"
  by (induction pat ms arbitrary: commands rule: mount_cmds.induct) auto

lemma unmount_base_cmds:
  "unmount_base sy execute ms commands s = (Inr cmds, s')
   \<Longrightarrow> cmds = commands @ base_cmds ms"
  by (induction sy execute ms commands s rule: unmount_base.induct)
     (auto split: if_splits prod.splits sum.splits)

lemma unmount_base_dry:
  "unmount_base sy False ms commands s = (Inr (commands @ base_cmds ms), s)"
  by (induction ms arbitrary: commands rule: base_cmds.induct) auto

lemma deactivate_groups_cmds:
  "fst (deactivate_groups sy execute loopbacks out pvname vgname commands s)
     = commands @ group_cmds loopbacks (pv_pairs out pvname vgname)"
  by (induction out arbitrary: pvname vgname commands s execute)
     (simp_all split: option.splits prod.splits sum.splits)

lemma deactivate_groups_dry:
  "snd (deactivate_groups sy False loopbacks out pvname vgname commands s) = s"
  by (induction out arbitrary: pvname vgname commands)
     (simp_all split: option.splits prod.splits sum.splits)

lemma clean_tmp_cmds: "fst (clean_tmp execute pat folders commands s) = sweep pat folders commands"
  by (induction folders arbitrary: commands s) simp_all

lemma clean_tmp_dry: "snd (clean_tmp False pat folders commands s) = s"
  by (induction folders arbitrary: commands) simp_all

lemma clean_image_mounter_cmds:
  "fst (clean_image_mounter execute folders commands s) = sweep (\<lambda>p. True) folders commands"
  by (induction folders arbitrary: commands s) simp_all

lemma clean_image_mounter_dry: "snd (clean_image_mounter False folders commands s) = s"
  by (induction folders arbitrary: commands) simp_all

lemma deactivate_groups_dry_eq:
  "deactivate_groups sy False loopbacks out pvname vgname commands s
     = (commands @ group_cmds loopbacks (pv_pairs out pvname vgname), s)"
  by (simp add: prod_eq_iff deactivate_groups_cmds deactivate_groups_dry)

lemma clean_tmp_dry_eq: "clean_tmp False pat folders commands s = (sweep pat folders commands, s)"
  by (simp add: prod_eq_iff clean_tmp_cmds clean_tmp_dry)

lemma clean_image_mounter_dry_eq:
  "clean_image_mounter False folders commands s = (sweep (\<lambda>p. True) folders commands, s)"
  by (simp add: prod_eq_iff clean_image_mounter_cmds clean_image_mounter_dry)

lemma check_output_eq:
  "check_output sy cmd s =
     (case fst (run sy cmd (os s)) of None \<Rightarrow> Inl CalledProcessError | Some out \<Rightarrow> Inr out,
      logged (Exec cmd) (s\<lparr>os := snd (run sy cmd (os s))\<rparr>))"
  by (simp add: check_output_def split: prod.splits option.splits)

lemma os_putenv [simp]: "os (putenv k v s) = os s"
  by (simp add: putenv_def)

lemma find_mountpoints_eq:
  "find_mountpoints sy s =
     (mounts_of sy (os s), logged (Exec [''mount'']) (s\<lparr>os := snd (run sy [''mount''] (os s))\<rparr>))"
  by (simp add: find_mountpoints_def check_output_eq mounts_of_def split: option.splits)

lemma find_loopbacks_eq:
  "find_loopbacks sy s =
     (loopbacks_of sy (os s),
      logged (Exec [''losetup'', ''-a'']) (s\<lparr>os := snd (run sy [''losetup'', ''-a''] (os s))\<rparr>))"
  by (simp add: find_loopbacks_def check_output_eq loopbacks_of_def split: option.splits)

lemma find_volume_groups_cmds:
  "fst (find_volume_groups sy execute loopbacks commands s)
     = commands @ group_cmds loopbacks (pv_pairs (pvdisplay_of sy (os s)) None None)"
  by (simp add: find_volume_groups_def check_output_eq pvdisplay_of_def deactivate_groups_cmds
           split: option.splits)

lemma find_volume_groups_dry:
  "snd (find_volume_groups sy False loopbacks commands s)
     = logged (Exec [''pvdisplay'']) (s\<lparr>os := snd (run sy [''pvdisplay''] (os s))\<rparr>)"
  by (simp add: find_volume_groups_def check_output_eq deactivate_groups_dry
           split: option.splits)

lemma unmount_binds_fst:
  "fst (unmount_binds sy execute pat ms commands s) = Inr cmds
   \<Longrightarrow> cmds = commands @ bind_cmds pat ms"
  by (cases "unmount_binds sy execute pat ms commands s") (auto dest: unmount_binds_cmds)

lemma unmount_mounts_fst:
  "fst (unmount_mounts sy execute pat ms commands s) = Inr cmds
   \<Longrightarrow> cmds = commands @ mount_cmds pat ms"
  by (cases "unmount_mounts sy execute pat ms commands s") (auto dest: unmount_mounts_cmds)

lemma unmount_base_fst:
  "fst (unmount_base sy execute ms commands s) = Inr cmds
   \<Longrightarrow> cmds = commands @ base_cmds ms"
  by (cases "unmount_base sy execute ms commands s") (auto dest: unmount_base_cmds)

text \<open>Whatever \<open>execute\<close> is, a list that \<open>force_clean\<close> returns is a plan.\<close>

lemma force_clean_plan:
  assumes "force_clean sy execute pat glob_pattern s = (Inr cmds, s')"
  shows "\<exists>w1 w2 w3 w4.
           cmds = plan pat (mounts_of sy (os s)) (loopbacks_of sy w1) (pvdisplay_of sy w2)
                    (glob glob_pattern w3) (glob image_mounter_glob w4)"
proof -
  have "fst (force_clean sy execute pat glob_pattern s) = Inr cmds"
    using assms by simp
  then show ?thesis
    unfolding force_clean_def Let_def case_prod_beta plan_def
    by (auto split: sum.split_asm
             simp: find_mountpoints_eq find_loopbacks_eq find_volume_groups_cmds clean_tmp_cmds
               clean_image_mounter_cmds
             dest!: unmount_binds_fst unmount_mounts_fst unmount_base_fst)
       blast
qed

section \<open>The entries of a plan\<close>

text \<open>The five kinds of description never coincide, and each names its target.\<close>

lemma cmd_inject [simp]:
  "umount_cmd a = umount_cmd b \<longleftrightarrow> a = b"
  "rm_cmd a = rm_cmd b \<longleftrightarrow> a = b"
  "fusermount_cmd a = fusermount_cmd b \<longleftrightarrow> a = b"
  "lvchange_cmd a = lvchange_cmd b \<longleftrightarrow> a = b"
  "losetup_cmd a = losetup_cmd b \<longleftrightarrow> a = b"
  by (simp_all add: umount_cmd_def rm_cmd_def fusermount_cmd_def lvchange_cmd_def losetup_cmd_def)

lemma cmd_distinct [simp]:
  "umount_cmd x \<noteq> rm_cmd y"
  "umount_cmd x \<noteq> fusermount_cmd y"
  "umount_cmd x \<noteq> lvchange_cmd y"
  "umount_cmd x \<noteq> losetup_cmd y"
  "rm_cmd x \<noteq> umount_cmd y"
  "rm_cmd x \<noteq> fusermount_cmd y"
  "rm_cmd x \<noteq> lvchange_cmd y"
  "rm_cmd x \<noteq> losetup_cmd y"
  "fusermount_cmd x \<noteq> umount_cmd y"
  "fusermount_cmd x \<noteq> rm_cmd y"
  "fusermount_cmd x \<noteq> lvchange_cmd y"
  "fusermount_cmd x \<noteq> losetup_cmd y"
  "lvchange_cmd x \<noteq> umount_cmd y"
  "lvchange_cmd x \<noteq> rm_cmd y"
  "lvchange_cmd x \<noteq> fusermount_cmd y"
  "lvchange_cmd x \<noteq> losetup_cmd y"
  "losetup_cmd x \<noteq> umount_cmd y"
  "losetup_cmd x \<noteq> rm_cmd y"
  "losetup_cmd x \<noteq> fusermount_cmd y"
  "losetup_cmd x \<noteq> lvchange_cmd y"
  by (simp_all add: umount_cmd_def rm_cmd_def fusermount_cmd_def lvchange_cmd_def losetup_cmd_def)
lemma in_bind_cmds:
  "c \<in> set (bind_cmds pat ms) \<longleftrightarrow>
     (\<exists>mp orig fs opts. (mp, orig, fs, opts) \<in> set ms \<and> sublist ''bind'' opts \<and> pat mp
        \<and> c = umount_cmd mp)"
  by (induction pat ms rule: bind_cmds.induct) auto

lemma in_mount_cmds:
  "c \<in> set (mount_cmds pat ms) \<longleftrightarrow>
     (\<exists>mp orig fs opts. (mp, orig, fs, opts) \<in> set ms \<and> \<not> sublist ''bind'' opts
        \<and> (marker orig \<or> pat mp) \<and> (c = umount_cmd mp \<or> c = rm_cmd mp))"
  by (induction pat ms rule: mount_cmds.induct) auto

lemma in_base_cmds:
  "c \<in> set (base_cmds ms) \<longleftrightarrow>
     (\<exists>mp orig fs opts. (mp, orig, fs, opts) \<in> set ms \<and> marker mp
        \<and> (c = fusermount_cmd mp \<or> c = rm_cmd mp))"
  by (induction ms rule: base_cmds.induct) auto

lemma in_group_cmds:
  "c \<in> set (group_cmds loopbacks pairs) \<longleftrightarrow>
     (\<exists>pv vg backing. (pv, vg) \<in> set pairs \<and> map_of loopbacks pv = Some backing
        \<and> marker backing \<and> (c = lvchange_cmd vg \<or> c = losetup_cmd pv))"
proof (induction pairs)
  case Nil
  then show ?case by simp
next
  case (Cons pair pairs)
  obtain pv vg where pair: "pair = (pv, vg)" by (cases pair)
  have here: "c \<in> set (case map_of loopbacks pv of None \<Rightarrow> []
                 | Some backing \<Rightarrow> if marker backing then [lvchange_cmd vg, losetup_cmd pv] else [])
              \<longleftrightarrow> (\<exists>backing. map_of loopbacks pv = Some backing \<and> marker backing
                     \<and> (c = lvchange_cmd vg \<or> c = losetup_cmd pv))"
    by (cases "map_of loopbacks pv") auto
  show ?case
    unfolding pair group_cmds.simps set_append Un_iff here Cons.IH
    by auto
qed

text \<open>A sweep only appends, and what it appends is new, distinct and a removal.\<close>

lemma sweep_appends:
  "\<exists>extra. sweep pat folders commands = commands @ extra \<and> distinct extra
      \<and> set extra \<inter> set commands = {}
      \<and> set extra \<subseteq> {rm_cmd f |f. f \<in> set folders \<and> pat f}"
proof (induction folders arbitrary: commands)
  case Nil
  then show ?case by simp
next
  case (Cons f folders)
  show ?case
  proof (cases "pat f \<and> rm_cmd f \<notin> set commands")
    case True
    from Cons.IH [of "commands @ [rm_cmd f]"] obtain extra where
      e: "sweep pat folders (commands @ [rm_cmd f]) = (commands @ [rm_cmd f]) @ extra"
         "distinct extra" "set extra \<inter> set (commands @ [rm_cmd f]) = {}"
         "set extra \<subseteq> {rm_cmd g |g. g \<in> set folders \<and> pat g}"
      by blast
    have "sweep pat (f # folders) commands = commands @ (rm_cmd f # extra)"
      using True e(1) by simp
    moreover have "distinct (rm_cmd f # extra)" using e(2,3) by auto
    moreover have "set (rm_cmd f # extra) \<inter> set commands = {}" using True e(3) by auto
    moreover have "set (rm_cmd f # extra) \<subseteq> {rm_cmd g |g. g \<in> set (f # folders) \<and> pat g}"
      using True e(4) by auto
    ultimately show ?thesis by blast
  next
    case False
    from Cons.IH [of commands] obtain extra where
      e: "sweep pat folders commands = commands @ extra"
         "distinct extra" "set extra \<inter> set commands = {}"
         "set extra \<subseteq> {rm_cmd g |g. g \<in> set folders \<and> pat g}"
      by blast
    have "sweep pat (f # folders) commands = commands @ extra"
      using False e(1) by auto
    moreover have "set extra \<subseteq> {rm_cmd g |g. g \<in> set (f # folders) \<and> pat g}"
      using e(4) by auto
    ultimately show ?thesis using e(2,3) by blast
  qed
qed

lemma sweep_covers:
  "f \<in> set folders \<Longrightarrow> pat f \<Longrightarrow> rm_cmd f \<in> set (sweep pat folders commands)"
proof (induction folders arbitrary: commands)
  case Nil
  then show ?case by simp
next
  case (Cons g folders)
  have keeps: "c \<in> set cs \<Longrightarrow> c \<in> set (sweep pat folders cs)" for c cs
    using sweep_appends [of pat folders cs] by auto
  show ?case
  proof (cases "f = g")
    case True
    with Cons.prems show ?thesis by (auto intro: keeps)
  next
    case False
    with Cons show ?thesis by auto
  qed
qed

text \<open>The keys of a table read from the system are distinct, as those of a dictionary.\<close>

lemma read_mounts_distinct:
  "distinct (map fst ms) \<Longrightarrow> distinct (map fst (read_mounts out ms))"
  by (induction out arbitrary: ms)
     (auto simp: distinct_update split: option.splits list.splits)

lemma mounts_of_distinct: "distinct (map fst (mounts_of sy w))"
  by (simp add: mounts_of_def read_mounts_distinct split: option.splits)

lemma mounts_of_unique:
  "(mp, x) \<in> set (mounts_of sy w) \<Longrightarrow> (mp, y) \<in> set (mounts_of sy w) \<Longrightarrow> x = y"
  by (rule eq_key_imp_eq_value [OF mounts_of_distinct])

section \<open>Bind mounts come first\<close>

text \<open>
  The later entries of claim C1: the unmount (\<open>umount\<close> or \<open>fusermount -u\<close>) of a mount
  of the table without \<open>bind\<close> in its options, a volume group's deactivation, a loopback
  device's detach.
\<close>

definition unmounts_nonbind :: "mounts \<Rightarrow> string \<Rightarrow> bool" where
  "unmounts_nonbind ms c =
     list_ex (\<lambda>(mp, orig, fs, opts).
                \<not> sublist ''bind'' opts \<and> (c = umount_cmd mp \<or> c = fusermount_cmd mp)) ms"

definition deactivates :: "string \<Rightarrow> bool" where
  "deactivates c = prefix ''lvchange -a n '' c"

definition detaches :: "string \<Rightarrow> bool" where
  "detaches c = prefix ''losetup -d '' c"

lemma umount_neither [simp]: "\<not> deactivates (umount_cmd mp)" "\<not> detaches (umount_cmd mp)"
  by (simp_all add: deactivates_def detaches_def umount_cmd_def)

lemma plan_splits:
  "\<exists>extra. plan pat ms lo pvout folders folders'
      = bind_cmds pat ms @ mount_cmds pat ms @ group_cmds lo (pv_pairs pvout None None)
        @ base_cmds ms @ extra
      \<and> distinct extra
      \<and> set extra \<inter> set (bind_cmds pat ms @ mount_cmds pat ms
             @ group_cmds lo (pv_pairs pvout None None) @ base_cmds ms) = {}
      \<and> set extra \<subseteq> {rm_cmd f |f. (f \<in> set folders \<and> pat f) \<or> f \<in> set folders'}"
proof -
  let ?pre = "bind_cmds pat ms @ mount_cmds pat ms @ group_cmds lo (pv_pairs pvout None None)
                @ base_cmds ms"
  from sweep_appends [of pat folders ?pre] obtain e1 where
    e1: "sweep pat folders ?pre = ?pre @ e1" "distinct e1" "set e1 \<inter> set ?pre = {}"
        "set e1 \<subseteq> {rm_cmd f |f. f \<in> set folders \<and> pat f}"
    by blast
  from sweep_appends [of "\<lambda>p. True" folders' "?pre @ e1"] obtain e2 where
    e2: "sweep (\<lambda>p. True) folders' (?pre @ e1) = (?pre @ e1) @ e2" "distinct e2"
        "set e2 \<inter> set (?pre @ e1) = {}"
        "set e2 \<subseteq> {rm_cmd f |f. f \<in> set folders' \<and> True}"
    by blast
  have a: "plan pat ms lo pvout folders folders' = ?pre @ (e1 @ e2)"
    unfolding plan_def e1(1) e2(1) by simp
  have b: "distinct (e1 @ e2)" using e1(2) e2(2,3) by auto
  have c: "set (e1 @ e2) \<inter> set ?pre = {}" using e1(3) e2(3) by auto
  have d: "set (e1 @ e2) \<subseteq> {rm_cmd f |f. (f \<in> set folders \<and> pat f) \<or> f \<in> set folders'}"
    using e1(4) e2(4) by auto
  show ?thesis
    by (rule exI [of _ "e1 @ e2"]) (use a b c d in simp)
qed

lemma bind_cmds_first:
  assumes ms: "distinct (map fst ms)"
    and m: "(mp, orig, fs, opts) \<in> set ms" "sublist ''bind'' opts" "pat mp"
    and cmds: "cmds = plan pat ms lo pvout folders folders'"
    and i: "i < length cmds" "cmds ! i = umount_cmd mp"
    and j: "j < length cmds"
           "unmounts_nonbind ms (cmds ! j) \<or> deactivates (cmds ! j) \<or> detaches (cmds ! j)"
  shows "i < j"
proof -
  let ?B = "bind_cmds pat ms"
  from plan_splits [of pat ms lo pvout folders folders'] obtain extra where
    split: "cmds = ?B @ (mount_cmds pat ms @ group_cmds lo (pv_pairs pvout None None)
                          @ base_cmds ms @ extra)"
    and extra: "set extra \<subseteq> {rm_cmd f |f. (f \<in> set folders \<and> pat f) \<or> f \<in> set folders'}"
    using cmds by auto
  let ?R = "mount_cmds pat ms @ group_cmds lo (pv_pairs pvout None None) @ base_cmds ms @ extra"
  have unique: "(mp, x) \<in> set ms \<Longrightarrow> x = (orig, fs, opts)" for x
    using eq_key_imp_eq_value [OF ms _ m(1)] by blast
  have not_later: "umount_cmd mp \<notin> set ?R"
  proof
    assume "umount_cmd mp \<in> set ?R"
    then consider "umount_cmd mp \<in> set (mount_cmds pat ms)"
      | "umount_cmd mp \<in> set (group_cmds lo (pv_pairs pvout None None))"
      | "umount_cmd mp \<in> set (base_cmds ms)" | "umount_cmd mp \<in> set extra"
      by auto
    then show False
    proof cases
      case 1
      then obtain orig' fs' opts' where "(mp, orig', fs', opts') \<in> set ms"
        "\<not> sublist ''bind'' opts'"
        by (auto simp: in_mount_cmds)
      with unique m(2) show False by blast
    next
      case 2
      then show False by (auto simp: in_group_cmds)
    next
      case 3
      then show False by (auto simp: in_base_cmds)
    next
      case 4
      with extra show False by auto
    qed
  qed
  have early: "i < length ?B"
  proof (rule ccontr)
    assume "\<not> i < length ?B"
    with i split have "umount_cmd mp = ?R ! (i - length ?B)" "i - length ?B < length ?R"
      by (auto simp: nth_append)
    then have "umount_cmd mp \<in> set ?R" by (metis nth_mem)
    with not_later show False by contradiction
  qed
  have not_bind: "cmds ! j \<notin> set ?B"
  proof
    assume "cmds ! j \<in> set ?B"
    then obtain mp' orig' fs' opts' where b: "(mp', orig', fs', opts') \<in> set ms"
      "sublist ''bind'' opts'" "cmds ! j = umount_cmd mp'"
      by (auto simp: in_bind_cmds)
    from j(2) b(3) have "unmounts_nonbind ms (umount_cmd mp')" by auto
    then obtain orig'' fs'' opts'' where "(mp', orig'', fs'', opts'') \<in> set ms"
      "\<not> sublist ''bind'' opts''"
      by (auto simp: unmounts_nonbind_def list_ex_iff)
    with b(1,2) eq_key_imp_eq_value [OF ms] show False by blast
  qed
  have "length ?B \<le> j"
  proof (rule ccontr)
    assume "\<not> length ?B \<le> j"
    with split have "cmds ! j = ?B ! j" "j < length ?B" by (auto simp: nth_append)
    then have "cmds ! j \<in> set ?B" by (metis nth_mem)
    with not_bind show False by contradiction
  qed
  with early show ?thesis by simp
qed

text \<open>
  C1, as the code has it.  The \<open>umount\<close> entry of a mount whose options contain \<open>bind\<close> and
  whose mount point matches the pattern is on every list \<open>force_clean\<close> returns, and
  stands before every unmount of a mount without \<open>bind\<close>, every \<open>lvchange -a n\<close> and
  every \<open>losetup -d\<close> entry.  The statement is about this \<open>umount\<close> entry only: the
  stage for base images lists a mount point that contains \<open>/image_mounter_\<close> once more,
  whatever its options, and nothing is said about where those entries stand.
\<close>

theorem bind_unmounts_first:
  assumes "force_clean sy execute pat glob_pattern s = (Inr cmds, s')"
    and "(mp, orig, fs, opts) \<in> set (mounts_of sy (os s))"
    and "sublist ''bind'' opts"
    and "pat mp"
  shows "umount_cmd mp \<in> set cmds \<and>
         (\<forall>i j. i < length cmds \<and> j < length cmds \<and> cmds ! i = umount_cmd mp \<and>
                (unmounts_nonbind (mounts_of sy (os s)) (cmds ! j)
                 \<or> deactivates (cmds ! j) \<or> detaches (cmds ! j))
                \<longrightarrow> i < j)"
proof -
  from force_clean_plan [OF assms(1)] obtain w1 w2 w3 w4 where
    cmds: "cmds = plan pat (mounts_of sy (os s)) (loopbacks_of sy w1) (pvdisplay_of sy w2)
                    (glob glob_pattern w3) (glob image_mounter_glob w4)"
    by blast
  have "umount_cmd mp \<in> set (bind_cmds pat (mounts_of sy (os s)))"
    using assms(2-4) by (auto simp: in_bind_cmds)
  moreover from plan_splits obtain extra where
    "cmds = bind_cmds pat (mounts_of sy (os s)) @ mount_cmds pat (mounts_of sy (os s))
       @ group_cmds (loopbacks_of sy w1) (pv_pairs (pvdisplay_of sy w2) None None)
       @ base_cmds (mounts_of sy (os s)) @ extra"
    unfolding cmds by blast
  ultimately have "umount_cmd mp \<in> set cmds" by simp
  moreover have "i < j" if "i < length cmds" "j < length cmds" "cmds ! i = umount_cmd mp"
    "unmounts_nonbind (mounts_of sy (os s)) (cmds ! j) \<or> deactivates (cmds ! j)
       \<or> detaches (cmds ! j)" for i j
    using bind_cmds_first [OF mounts_of_distinct assms(2-4) cmds that(1,3,2,4)] .
  ultimately show ?thesis by blast
qed

definition bare_state :: state where
  "bare_state = \<lparr>os = \<lparr>nodes = [], mounted = []\<rparr>, environ = Map.empty, trace = []\<rparr>"

definition bind_over_sub :: "string list" where
  "bind_over_sub =
     [''/data on /tmp/im_1234.0_abc type none (rw,bind)'',
      ''/dev/loop0 on /tmp/im_1234.0_abc/sub type ext4 (rw)'']"

theorem bind_unmounts_first_witness:
  "fst (force_clean (host bind_over_sub [] []) False default_pattern default_glob bare_state)
     = Inr [''umount /tmp/im_1234.0_abc'', ''umount /tmp/im_1234.0_abc/sub'',
            ''rm -Rf /tmp/im_1234.0_abc/sub'']
   \<and> umount_cmd ''/tmp/im_1234.0_abc''
       \<in> set [''umount /tmp/im_1234.0_abc'', ''umount /tmp/im_1234.0_abc/sub'',
              ''rm -Rf /tmp/im_1234.0_abc/sub'']
   \<and> unmounts_nonbind (mounts_of (host bind_over_sub [] []) (os bare_state))
         ''umount /tmp/im_1234.0_abc/sub''
   \<and> (0::nat) < 1"
proof -
  let ?H = "host bind_over_sub [] []"
  let ?L = "[''umount /tmp/im_1234.0_abc'', ''umount /tmp/im_1234.0_abc/sub'',
             ''rm -Rf /tmp/im_1234.0_abc/sub'']"
  have f: "fst (force_clean ?H False default_pattern default_glob bare_state) = Inr ?L"
    by code_simp
  then have run: "force_clean ?H False default_pattern default_glob bare_state
                = (Inr ?L, snd (force_clean ?H False default_pattern default_glob bare_state))"
    by (simp add: prod_eq_iff)
  have m: "(''/tmp/im_1234.0_abc'', ''/data'', ''none'', ''rw,bind'')
             \<in> set (mounts_of ?H (os bare_state))"
    by code_simp
  have b: "sublist ''bind'' ''rw,bind''" by code_simp
  have p: "default_pattern ''/tmp/im_1234.0_abc''" by code_simp
  have n: "unmounts_nonbind (mounts_of ?H (os bare_state)) ''umount /tmp/im_1234.0_abc/sub''"
    by code_simp
  have u: "umount_cmd ''/tmp/im_1234.0_abc'' = ''umount /tmp/im_1234.0_abc''"
    by (simp add: umount_cmd_def)
  from bind_unmounts_first [OF run m b p]
  have "umount_cmd ''/tmp/im_1234.0_abc'' \<in> set ?L"
    and "0 < 1 \<and> 1 < length ?L \<and> ?L ! 0 = umount_cmd ''/tmp/im_1234.0_abc''
          \<and> (unmounts_nonbind (mounts_of ?H (os bare_state)) (?L ! 1)
              \<or> deactivates (?L ! 1) \<or> detaches (?L ! 1)) \<longrightarrow> (0::nat) < 1"
    by blast+
  with f n show ?thesis by simp
qed

text \<open>
  C1 as it is worded fails: here the bind mount's mount point matches the pattern and
  contains \<open>/image_mounter_\<close>, so the mount is released a second time after the mount
  without \<open>bind\<close>: entry 3 of the list is for the bind mount, entry 1 is the other unmount.
\<close>

definition bind_in_base :: "string list" where
  "bind_in_base =
     [''/data on /tmp/image_mounter_1/im_1_a type none (rw,bind)'',
      ''/dev/loop0 on /tmp/im_2_b type ext4 (rw)'']"

theorem bind_mount_released_again:
  "mounts_of (host bind_in_base [] []) (os bare_state)
     = [(''/tmp/image_mounter_1/im_1_a'', ''/data'', ''none'', ''rw,bind''),
        (''/tmp/im_2_b'', ''/dev/loop0'', ''ext4'', ''rw'')]
   \<and> sublist ''bind'' ''rw,bind'' \<and> \<not> sublist ''bind'' ''rw''
   \<and> default_pattern ''/tmp/image_mounter_1/im_1_a''
   \<and> fst (force_clean (host bind_in_base [] []) False default_pattern default_glob bare_state)
     = Inr [''umount /tmp/image_mounter_1/im_1_a'', ''umount /tmp/im_2_b'',
            ''rm -Rf /tmp/im_2_b'', ''fusermount -u /tmp/image_mounter_1/im_1_a'',
            ''rm -Rf /tmp/image_mounter_1/im_1_a'']"
  by code_simp

section \<open>A volume group on a loopback device\<close>

lemma not_group_cmd [simp]:
  "\<not> deactivates (rm_cmd x)" "\<not> detaches (rm_cmd x)"
  "\<not> deactivates (fusermount_cmd x)" "\<not> detaches (fusermount_cmd x)"
  by (simp_all add: deactivates_def detaches_def rm_cmd_def fusermount_cmd_def)

lemma host_tables [simp]:
  "mounts_of (host mount_out losetup_out pvdisplay_out) w = read_mounts mount_out []"
  "loopbacks_of (host mount_out losetup_out pvdisplay_out) w = read_loopbacks losetup_out []"
  "pvdisplay_of (host mount_out losetup_out pvdisplay_out) w = pvdisplay_out"
  by (simp_all add: mounts_of_def loopbacks_of_def pvdisplay_of_def host_def host_run_def)

text \<open>
  C6.  The loopback table has the one entry \<open>dev\<close> with a backing file that carries the
  marker, and \<open>pvdisplay\<close> pairs the one volume group \<open>vg\<close> with \<open>dev\<close>, whenever the two are
  listed.  Then a list that \<open>force_clean\<close> returns has \<open>lvchange -a n vg\<close> immediately
  followed by \<open>losetup -d dev\<close>, and no other deactivation or detach entry.
\<close>

theorem volume_group_chain:
  assumes "force_clean sy execute pat glob_pattern s = (Inr cmds, s')"
    and "\<forall>w. loopbacks_of sy w = [(dev, backing)]"
    and "marker backing"
    and "\<forall>w. pv_pairs (pvdisplay_of sy w) None None = [(dev, vg)]"
  shows "\<exists>before after.
           cmds = before @ [lvchange_cmd vg, losetup_cmd dev] @ after
           \<and> (\<forall>c \<in> set (before @ after). \<not> deactivates c \<and> \<not> detaches c)"
proof -
  from force_clean_plan [OF assms(1)] obtain w1 w2 w3 w4 where
    cmds: "cmds = plan pat (mounts_of sy (os s)) (loopbacks_of sy w1) (pvdisplay_of sy w2)
                    (glob glob_pattern w3) (glob image_mounter_glob w4)"
    by blast
  let ?ms = "mounts_of sy (os s)"
  have g: "group_cmds (loopbacks_of sy w1) (pv_pairs (pvdisplay_of sy w2) None None)
             = [lvchange_cmd vg, losetup_cmd dev]"
    using assms(2-4) by simp
  from plan_splits [of pat ?ms "loopbacks_of sy w1" "pvdisplay_of sy w2"
                       "glob glob_pattern w3" "glob image_mounter_glob w4"]
  obtain extra where
    split: "cmds = (bind_cmds pat ?ms @ mount_cmds pat ?ms)
                     @ [lvchange_cmd vg, losetup_cmd dev] @ (base_cmds ?ms @ extra)"
    and extra: "set extra \<subseteq> {rm_cmd f |f. (f \<in> set (glob glob_pattern w3) \<and> pat f)
                                  \<or> f \<in> set (glob image_mounter_glob w4)}"
    unfolding cmds g by auto
  have "\<not> deactivates c \<and> \<not> detaches c"
    if "c \<in> set ((bind_cmds pat ?ms @ mount_cmds pat ?ms) @ (base_cmds ?ms @ extra))" for c
  proof -
    from that consider "c \<in> set (bind_cmds pat ?ms)" | "c \<in> set (mount_cmds pat ?ms)"
      | "c \<in> set (base_cmds ?ms)" | "c \<in> set extra"
      by auto
    then show ?thesis
    proof cases
      case 1 then show ?thesis by (auto simp: in_bind_cmds)
    next
      case 2 then show ?thesis by (auto simp: in_mount_cmds)
    next
      case 3 then show ?thesis by (auto simp: in_base_cmds)
    next
      case 4 with extra show ?thesis by auto
    qed
  qed
  with split show ?thesis by blast
qed

definition loop0_listing :: "string list" where
  "loop0_listing = [''/dev/loop0: [2049]:131 (/tmp/image_mounter_1/file.dd)'']"

definition vg1_display :: "string list" where
  "vg1_display =
     [''  --- Physical volume ---'',
      ''  PV Name               /dev/loop0'',
      ''  VG Name               vg1'',
      ''  PV Size               1.00 GiB'']"

theorem volume_group_chain_witness:
  "fst (force_clean (host [] loop0_listing vg1_display) False default_pattern default_glob
          bare_state)
     = Inr [''lvchange -a n vg1'', ''losetup -d /dev/loop0'']
   \<and> (\<exists>before after.
         [''lvchange -a n vg1'', ''losetup -d /dev/loop0'']
           = before @ [lvchange_cmd ''vg1'', losetup_cmd ''/dev/loop0''] @ after
         \<and> list_all (\<lambda>c. \<not> deactivates c \<and> \<not> detaches c) (before @ after))"
proof -
  let ?H = "host [] loop0_listing vg1_display"
  let ?L = "[''lvchange -a n vg1'', ''losetup -d /dev/loop0'']"
  have f: "fst (force_clean ?H False default_pattern default_glob bare_state) = Inr ?L"
    by code_simp
  then have run: "force_clean ?H False default_pattern default_glob bare_state
                = (Inr ?L, snd (force_clean ?H False default_pattern default_glob bare_state))"
    by (simp add: prod_eq_iff)
  have lo: "read_loopbacks loop0_listing [] = [(''/dev/loop0'', ''/tmp/image_mounter_1/file.dd'')]"
    by code_simp
  have a: "\<forall>w. loopbacks_of ?H w = [(''/dev/loop0'', ''/tmp/image_mounter_1/file.dd'')]"
    by (simp add: lo)
  have b: "marker ''/tmp/image_mounter_1/file.dd''" by code_simp
  have pv: "pv_pairs vg1_display None None = [(''/dev/loop0'', ''vg1'')]"
    by code_simp
  have c: "\<forall>w. pv_pairs (pvdisplay_of ?H w) None None = [(''/dev/loop0'', ''vg1'')]"
    by (simp add: pv)
  from volume_group_chain [OF run a b c] f show ?thesis
    by (simp add: list_all_iff)
qed

section \<open>The dry run\<close>

lemma putenv_parts [simp]:
  "trace (putenv k v s) = trace s @ [Putenv k v]"
  "environ (putenv k v s) = (environ s)(k \<mapsto> v)"
  by (simp_all add: putenv_def)

text \<open>
  With \<open>execute=False\<close> the program sets the environment variable, runs the three
  listing commands and computes the plan from what they print and from two directory
  listings; it never raises.
\<close>

lemma force_clean_dry:
  "force_clean sy False pat glob_pattern s =
     (let w1 = snd (run sy [''mount''] (os s));
          w2 = snd (run sy [''losetup'', ''-a''] w1);
          w3 = snd (run sy [''pvdisplay''] w2)
      in (Inr (plan pat (mounts_of sy (os s)) (loopbacks_of sy w1) (pvdisplay_of sy w2)
                 (glob glob_pattern w3) (glob image_mounter_glob w3)),
          \<lparr>os = w3,
           environ = (environ s)(''LVM_SUPPRESS_FD_WARNINGS'' \<mapsto> ''1''),
           trace = trace s @ [Putenv ''LVM_SUPPRESS_FD_WARNINGS'' ''1'', Exec [''mount''],
                     Exec [''losetup'', ''-a''], Exec [''pvdisplay'']]\<rparr>))"
  unfolding force_clean_def Let_def case_prod_beta
  by (simp add: find_mountpoints_eq find_loopbacks_eq find_volume_groups_cmds
        find_volume_groups_dry unmount_binds_dry unmount_mounts_dry unmount_base_dry
        clean_tmp_dry_eq clean_image_mounter_dry_eq plan_def logged_def putenv_def)

section \<open>Invariants of the execution\<close>

text \<open>
  What every primitive step keeps, \<open>clean_unmount\<close> and the stages keep.  The steps of
  \<open>clean_unmount\<close> on a mount point are: removing its \<open>avfs\<close> entry, running the unmount
  command, sleeping, and (with \<open>rmdir=True\<close>) unlinking or removing the mount point.
\<close>

definition unmount_keeps :: "(state \<Rightarrow> bool) \<Rightarrow> sys \<Rightarrow> string list \<Rightarrow> string \<Rightarrow> bool" where
  "unmount_keeps I sy cmd mp =
     (\<forall>s. I s \<longrightarrow> I (snd (os_remove (path_join mp ''avfs'') s))
                \<and> I (snd (check_call sy (cmd @ [mp]) s)))"

definition removal_keeps :: "(state \<Rightarrow> bool) \<Rightarrow> sys \<Rightarrow> string \<Rightarrow> bool" where
  "removal_keeps I sy mp =
     (\<forall>s. I s \<longrightarrow> I (sleep sy s) \<and> I (snd (os_unlink mp s)) \<and> I (snd (os_rmdir mp s)))"

lemma unmount_step_state:
  "snd (unmount_step sy cmd mp s) =
     (if path_exists (os s) (path_join mp ''avfs'') then snd (os_remove (path_join mp ''avfs'') s)
      else if islink (os s) mp then s
      else snd (check_call sy cmd s))"
  by (simp add: unmount_step_def split: prod.splits sum.splits)

lemma unmount_step_inv:
  assumes "unmount_keeps I sy cmd mp" and "I s"
  shows "I (snd (unmount_step sy (cmd @ [mp]) mp s))"
proof -
  have "I (snd (os_remove (path_join mp ''avfs'') s))"
    and "I (snd (check_call sy (cmd @ [mp]) s))"
    using assms by (simp_all add: unmount_keeps_def)
  with assms(2) show ?thesis by (simp add: unmount_step_state)
qed

lemma poll_inv:
  assumes "removal_keeps I sy mp" and "I s"
  shows "I (snd (poll sy mp n s))"
  using assms(2)
proof (induction n arbitrary: s)
  case 0
  then show ?case by simp
next
  case (Suc n)
  have "I (sleep sy s)" and "I (snd (os_unlink mp s))" and "I (snd (os_rmdir mp s))"
    using assms(1) Suc.prems by (simp_all add: removal_keeps_def)
  with Suc.IH [of "sleep sy s"] show ?case by simp
qed

lemma remove_mountpoint_state:
  "snd (remove_mountpoint sy mp tries True s) = snd (poll sy mp (nat tries) s)"
  by (simp add: remove_mountpoint_def split: prod.splits sum.splits)

lemma remove_mountpoint_inv:
  "removal_keeps I sy mp \<Longrightarrow> I s \<Longrightarrow> I (snd (remove_mountpoint sy mp tries True s))"
  by (simp add: remove_mountpoint_state poll_inv)

lemma remove_mountpoint_keep [simp]: "remove_mountpoint sy mp tries False s = (Inr True, s)"
  by (simp add: remove_mountpoint_def)

lemma clean_unmount_state:
  "snd (snd (clean_unmount sy cmd mp tries rmdir s)) =
     (if fst (unmount_step sy (cmd @ [mp]) mp s) = Inr True
      then snd (remove_mountpoint sy mp tries rmdir (snd (unmount_step sy (cmd @ [mp]) mp s)))
      else snd (unmount_step sy (cmd @ [mp]) mp s))"
  by (simp add: clean_unmount_def split: prod.splits sum.splits bool.splits)

lemma clean_unmount_inv:
  assumes "unmount_keeps I sy cmd mp" and "rmdir \<Longrightarrow> removal_keeps I sy mp" and "I s"
  shows "I (snd (snd (clean_unmount sy cmd mp tries rmdir s)))"
proof -
  have a: "I (snd (unmount_step sy (cmd @ [mp]) mp s))"
    using assms(1,3) by (rule unmount_step_inv)
  show ?thesis
  proof (cases rmdir)
    case True
    with assms(2) have "removal_keeps I sy mp" by simp
    from remove_mountpoint_inv [OF this a, of tries] a True show ?thesis
      by (simp add: clean_unmount_state)
  next
    case False
    with a show ?thesis by (simp add: clean_unmount_state)
  qed
qed

lemma unmount_binds_inv:
  assumes "\<And>mp orig fs opts. (mp, orig, fs, opts) \<in> set ms \<Longrightarrow> sublist ''bind'' opts \<Longrightarrow> pat mp
             \<Longrightarrow> unmount_keeps I sy [''umount''] mp"
    and "I s"
  shows "I (snd (unmount_binds sy execute pat ms commands s))"
  using assms
proof (induction ms arbitrary: commands s)
  case Nil
  then show ?case by simp
next
  case (Cons m ms)
  obtain mp orig fs opts where m: "m = (mp, orig, fs, opts)" by (cases m)
  have keeps: "unmount_keeps I sy [''umount''] mp" if "(mp, orig, fs, opts) \<in> set ms" "sublist ''bind'' opts" "pat mp" for mp orig fs opts
    using Cons.prems(1) [of mp orig fs opts] that by simp
  have rest: "I (snd (unmount_binds sy execute pat ms c s1))" if "I s1" for c s1
    using Cons.IH [of s1 c] keeps that by blast
  show ?case
  proof (cases "(sublist ''bind'' opts \<and> pat mp) \<and> execute")
    case True
    then have "unmount_keeps I sy [''umount''] mp"
      using Cons.prems(1) [of mp orig fs opts] m by simp
    then have inv: "I (snd (snd (clean_unmount sy [''umount''] mp 5 False s)))"
      using Cons.prems(2) by (simp add: clean_unmount_inv [where I = I])
    obtain r c s1 where cu: "clean_unmount sy [''umount''] mp 5 False s = (r, c, s1)"
      by (metis prod_cases3)
    with inv have s1: "I s1" by simp
    show ?thesis
    proof (cases r)
      case (Inl e)
      with True cu s1 show ?thesis by (simp add: m)
    next
      case (Inr b)
      with True cu rest [OF s1] show ?thesis by (simp add: m)
    qed
  next
    case False
    then consider "\<not> (sublist ''bind'' opts \<and> pat mp)" | "sublist ''bind'' opts \<and> pat mp" "\<not> execute" by blast
    then show ?thesis
    proof cases
      case 1
      then have no: "(sublist ''bind'' opts \<and> pat mp) = False" by simp
      from rest [OF Cons.prems(2)] show ?thesis by (simp add: m no)
    next
      case 2
      with rest [OF Cons.prems(2)] show ?thesis by (simp add: m)
    qed
  qed
qed

lemma unmount_mounts_inv:
  assumes "\<And>mp orig fs opts. (mp, orig, fs, opts) \<in> set ms \<Longrightarrow> \<not> sublist ''bind'' opts \<Longrightarrow> marker orig \<or> pat mp
             \<Longrightarrow> unmount_keeps I sy [''umount''] mp \<and> removal_keeps I sy mp"
    and "I s"
  shows "I (snd (unmount_mounts sy execute pat ms commands s))"
  using assms
proof (induction ms arbitrary: commands s)
  case Nil
  then show ?case by simp
next
  case (Cons m ms)
  obtain mp orig fs opts where m: "m = (mp, orig, fs, opts)" by (cases m)
  have keeps: "unmount_keeps I sy [''umount''] mp \<and> removal_keeps I sy mp" if "(mp, orig, fs, opts) \<in> set ms" "\<not> sublist ''bind'' opts" "marker orig \<or> pat mp" for mp orig fs opts
    using Cons.prems(1) [of mp orig fs opts] that by simp
  have rest: "I (snd (unmount_mounts sy execute pat ms c s1))" if "I s1" for c s1
    using Cons.IH [of s1 c] keeps that by blast
  show ?case
  proof (cases "(\<not> sublist ''bind'' opts \<and> (marker orig \<or> pat mp)) \<and> execute")
    case True
    then have "unmount_keeps I sy [''umount''] mp \<and> removal_keeps I sy mp"
      using Cons.prems(1) [of mp orig fs opts] m by simp
    then have inv: "I (snd (snd (clean_unmount sy [''umount''] mp 5 True s)))"
      using Cons.prems(2) by (simp add: clean_unmount_inv [where I = I])
    obtain r c s1 where cu: "clean_unmount sy [''umount''] mp 5 True s = (r, c, s1)"
      by (metis prod_cases3)
    with inv have s1: "I s1" by simp
    show ?thesis
    proof (cases r)
      case (Inl e)
      with True cu s1 show ?thesis by (simp add: m)
    next
      case (Inr b)
      with True cu rest [OF s1] show ?thesis by (simp add: m)
    qed
  next
    case False
    then consider "\<not> (\<not> sublist ''bind'' opts \<and> (marker orig \<or> pat mp))" | "\<not> sublist ''bind'' opts \<and> (marker orig \<or> pat mp)" "\<not> execute" by blast
    then show ?thesis
    proof cases
      case 1
      then have no: "(\<not> sublist ''bind'' opts \<and> (marker orig \<or> pat mp)) = False" by simp
      from rest [OF Cons.prems(2)] show ?thesis by (simp add: m no)
    next
      case 2
      with rest [OF Cons.prems(2)] show ?thesis by (simp add: m)
    qed
  qed
qed

lemma unmount_base_inv:
  assumes "\<And>mp orig fs opts. (mp, orig, fs, opts) \<in> set ms \<Longrightarrow> marker mp
             \<Longrightarrow> unmount_keeps I sy [''fusermount'', ''-u''] mp \<and> removal_keeps I sy mp"
    and "I s"
  shows "I (snd (unmount_base sy execute ms commands s))"
  using assms
proof (induction ms arbitrary: commands s)
  case Nil
  then show ?case by simp
next
  case (Cons m ms)
  obtain mp orig fs opts where m: "m = (mp, orig, fs, opts)" by (cases m)
  have keeps: "unmount_keeps I sy [''fusermount'', ''-u''] mp \<and> removal_keeps I sy mp" if "(mp, orig, fs, opts) \<in> set ms" "marker mp" for mp orig fs opts
    using Cons.prems(1) [of mp orig fs opts] that by simp
  have rest: "I (snd (unmount_base sy execute ms c s1))" if "I s1" for c s1
    using Cons.IH [of s1 c] keeps that by blast
  show ?case
  proof (cases "(marker mp) \<and> execute")
    case True
    then have "unmount_keeps I sy [''fusermount'', ''-u''] mp \<and> removal_keeps I sy mp"
      using Cons.prems(1) [of mp orig fs opts] m by simp
    then have inv: "I (snd (snd (clean_unmount sy [''fusermount'', ''-u''] mp 5 True s)))"
      using Cons.prems(2) by (simp add: clean_unmount_inv [where I = I])
    obtain r c s1 where cu: "clean_unmount sy [''fusermount'', ''-u''] mp 5 True s = (r, c, s1)"
      by (metis prod_cases3)
    with inv have s1: "I s1" by simp
    show ?thesis
    proof (cases r)
      case (Inl e)
      with True cu s1 show ?thesis by (simp add: m)
    next
      case (Inr b)
      with True cu rest [OF s1] show ?thesis by (simp add: m)
    qed
  next
    case False
    then consider "\<not> (marker mp)" | "marker mp" "\<not> execute" by blast
    then show ?thesis
    proof cases
      case 1
      then have no: "(marker mp) = False" by simp
      from rest [OF Cons.prems(2)] show ?thesis by (simp add: m no)
    next
      case 2
      with rest [OF Cons.prems(2)] show ?thesis by (simp add: m)
    qed
  qed
qed

lemma deactivate_groups_inv:
  assumes "\<And>pv vg backing s1. (pv, vg) \<in> set (pv_pairs out pvname vgname)
             \<Longrightarrow> map_of loopbacks pv = Some backing \<Longrightarrow> marker backing \<Longrightarrow> I s1
             \<Longrightarrow> I (snd (check_output sy [''lvchange'', ''-a'', ''n'', vg] s1))
                 \<and> I (snd (check_output sy [''losetup'', ''-d'', pv] s1))"
    and "I s"
  shows "I (snd (deactivate_groups sy execute loopbacks out pvname vgname commands s))"
  using assms
proof (induction out arbitrary: pvname vgname commands s)
  case Nil
  then show ?case by simp
next
  case (Cons line out)
  obtain pv' vg' where nn: "next_names line pvname vgname = (pv', vg')" by force
  show ?case
  proof (cases "\<exists>pv vg. pv' = Some pv \<and> vg' = Some vg \<and> pv \<noteq> [] \<and> vg \<noteq> []")
    case True
    then obtain pv vg where pv: "pv' = Some pv" "vg' = Some vg" "pv \<noteq> []" "vg \<noteq> []"
      by blast
    have pairs: "pv_pairs (line # out) pvname vgname = (pv, vg) # pv_pairs out None None"
      using nn pv by simp
    have tail: "I (snd (check_output sy [''lvchange'', ''-a'', ''n'', vg2] s1))
                 \<and> I (snd (check_output sy [''losetup'', ''-d'', pv2] s1))"
      if "(pv2, vg2) \<in> set (pv_pairs out None None)" "map_of loopbacks pv2 = Some b"
         "marker b" "I s1" for pv2 vg2 b s1
      using Cons.prems(1) [of pv2 vg2 b s1, unfolded pairs] that by simp
    have rest: "I (snd (deactivate_groups sy execute loopbacks out None None c s1))"
      if "I s1" for c s1
      using Cons.IH [of None None s1 c] tail that by blast
    have head: "I (snd (check_output sy [''lvchange'', ''-a'', ''n'', vg] s1))
                 \<and> I (snd (check_output sy [''losetup'', ''-d'', pv] s1))"
      if "map_of loopbacks pv = Some b" "marker b" "I s1" for b s1
      using Cons.prems(1) [of pv vg b s1, unfolded pairs] that by simp
    show ?thesis
    proof (cases "map_of loopbacks pv")
      case None
      with pv nn rest [OF Cons.prems(2)] show ?thesis by simp
    next
      case (Some backing)
      show ?thesis
      proof (cases "marker backing")
        case True
        show ?thesis
        proof (cases execute)
          case True
          obtain r s1 where lv: "check_output sy [''lvchange'', ''-a'', ''n'', vg] s = (r, s1)"
            by force
          have s1: "I s1"
            using head [OF Some \<open>marker backing\<close> Cons.prems(2)] lv by simp
          have s2: "I (snd (check_output sy [''losetup'', ''-d'', pv] s1))"
            using head [OF Some \<open>marker backing\<close> s1] by simp
          from pv nn Some \<open>marker backing\<close> True lv rest [OF s1] rest [OF s2] show ?thesis
            by (cases r) simp_all
        next
          case False
          with pv nn Some \<open>marker backing\<close> rest [OF Cons.prems(2)] show ?thesis by simp
        qed
      next
        case False
        with pv nn Some rest [OF Cons.prems(2)] show ?thesis by simp
      qed
    qed
  next
    case False
    have pairs: "pv_pairs (line # out) pvname vgname = pv_pairs out pv' vg'"
      using False nn by (cases pv'; cases vg') auto
    have tail: "I (snd (check_output sy [''lvchange'', ''-a'', ''n'', vg2] s1))
                 \<and> I (snd (check_output sy [''losetup'', ''-d'', pv2] s1))"
      if "(pv2, vg2) \<in> set (pv_pairs out pv' vg')" "map_of loopbacks pv2 = Some b"
         "marker b" "I s1" for pv2 vg2 b s1
      using Cons.prems(1) [of pv2 vg2 b s1, unfolded pairs] that by simp
    have "I (snd (deactivate_groups sy execute loopbacks out pv' vg' commands s))"
      using Cons.IH [of pv' vg' s commands] tail Cons.prems(2) by blast
    moreover have "deactivate_groups sy execute loopbacks (line # out) pvname vgname commands s
        = deactivate_groups sy execute loopbacks out pv' vg' commands s"
      using False nn by (cases pv'; cases vg') auto
    ultimately show ?thesis by simp
  qed
qed

lemma clean_tmp_inv:
  assumes "\<And>f s1. f \<in> set folders \<Longrightarrow> pat f \<Longrightarrow> I s1 \<Longrightarrow> I (snd (os_rmdir f s1))"
    and "I s"
  shows "I (snd (clean_tmp execute pat folders commands s))"
  using assms by (induction folders arbitrary: commands s) auto

lemma clean_image_mounter_inv:
  assumes "\<And>f s1. f \<in> set folders \<Longrightarrow> I s1 \<Longrightarrow> I (snd (os_rmdir f s1))"
    and "I s"
  shows "I (snd (clean_image_mounter execute folders commands s))"
  using assms by (induction folders arbitrary: commands s) auto

lemma find_volume_groups_inv:
  assumes "\<And>pv vg backing s1.
             (pv, vg) \<in> set (pv_pairs (pvdisplay_of sy (os s)) None None)
             \<Longrightarrow> map_of loopbacks pv = Some backing \<Longrightarrow> marker backing \<Longrightarrow> I s1
             \<Longrightarrow> I (snd (check_output sy [''lvchange'', ''-a'', ''n'', vg] s1))
                 \<and> I (snd (check_output sy [''losetup'', ''-d'', pv] s1))"
    and "I (snd (check_output sy [''pvdisplay''] s))"
  shows "I (snd (find_volume_groups sy execute loopbacks commands s))"
proof (cases "fst (run sy [''pvdisplay''] (os s))")
  case None
  with assms(2) show ?thesis
    by (simp add: find_volume_groups_def check_output_eq)
next
  case (Some out)
  then have out: "pvdisplay_of sy (os s) = out" by (simp add: pvdisplay_of_def)
  have "I (snd (deactivate_groups sy execute loopbacks out None None commands
                 (snd (check_output sy [''pvdisplay''] s))))"
    using assms(1) [unfolded out] assms(2) by (rule deactivate_groups_inv)
  with Some show ?thesis
    by (simp add: find_volume_groups_def check_output_eq)
qed

lemma find_mountpoints_fst [simp]: "fst (find_mountpoints sy s) = mounts_of sy (os s)"
  by (simp add: find_mountpoints_eq)

lemma find_loopbacks_fst [simp]: "fst (find_loopbacks sy s) = loopbacks_of sy (os s)"
  by (simp add: find_loopbacks_eq)

text \<open>\<open>force_clean\<close> with its intermediate results named.\<close>

lemma force_clean_unfold:
  "force_clean sy execute pat glob_pattern s =
     (let ms = mounts_of sy (os s);
          r3 = unmount_binds sy execute pat ms []
                 (snd (find_mountpoints sy (putenv ''LVM_SUPPRESS_FD_WARNINGS'' ''1'' s)));
          r4 = unmount_mounts sy execute pat ms (bind_cmds pat ms) (snd r3);
          g = find_volume_groups sy execute (loopbacks_of sy (os (snd r4)))
                (bind_cmds pat ms @ mount_cmds pat ms) (snd (find_loopbacks sy (snd r4)));
          r8 = unmount_base sy execute ms (fst g) (snd g);
          t9 = clean_tmp execute pat (glob glob_pattern (os (snd r8)))
                 (fst g @ base_cmds ms) (snd r8);
          t10 = clean_image_mounter execute (glob image_mounter_glob (os (snd t9)))
                  (fst t9) (snd t9)
      in case fst r3 of Inl e \<Rightarrow> (Inl e, snd r3) | Inr c3 \<Rightarrow>
           (case fst r4 of Inl e \<Rightarrow> (Inl e, snd r4) | Inr c4 \<Rightarrow>
              (case fst r8 of Inl e \<Rightarrow> (Inl e, snd r8) | Inr c8 \<Rightarrow> (Inr (fst t10), snd t10))))"
proof -
  let ?ms = "mounts_of sy (os s)"
  let ?r3 = "unmount_binds sy execute pat ?ms []
               (snd (find_mountpoints sy (putenv ''LVM_SUPPRESS_FD_WARNINGS'' ''1'' s)))"
  let ?r4 = "unmount_mounts sy execute pat ?ms (bind_cmds pat ?ms) (snd ?r3)"
  let ?g = "find_volume_groups sy execute (loopbacks_of sy (os (snd ?r4)))
              (bind_cmds pat ?ms @ mount_cmds pat ?ms) (snd (find_loopbacks sy (snd ?r4)))"
  let ?r8 = "unmount_base sy execute ?ms (fst ?g) (snd ?g)"
  note defs = force_clean_def Let_def case_prod_beta find_mountpoints_fst find_loopbacks_fst
  show ?thesis
  proof (cases "fst ?r3")
    case (Inl e)
    then show ?thesis by (simp add: defs)
  next
    case c3: (Inr c3)
    then have c3': "c3 = bind_cmds pat ?ms" by (auto dest: unmount_binds_fst)
    show ?thesis
    proof (cases "fst ?r4")
      case (Inl e)
      with c3 c3' show ?thesis by (simp add: defs)
    next
      case c4: (Inr c4)
      then have c4': "c4 = bind_cmds pat ?ms @ mount_cmds pat ?ms"
        by (auto dest: unmount_mounts_fst)
      show ?thesis
      proof (cases "fst ?r8")
        case (Inl e)
        with c3 c3' c4 c4' show ?thesis by (simp add: defs)
      next
        case c8: (Inr c8)
        then have c8': "c8 = fst ?g @ base_cmds ?ms" by (auto dest: unmount_base_fst)
        from c3 c3' c4 c4' c8 c8' show ?thesis by (simp add: defs)
      qed
    qed
  qed
qed

text \<open>
  The results of the stages when no exception has left \<open>force_clean\<close> before them: each
  starts from the state the one before it left and extends the list that one returned.
\<close>

definition after_binds ::
  "sys \<Rightarrow> bool \<Rightarrow> (string \<Rightarrow> bool) \<Rightarrow> state \<Rightarrow> (error + string list) \<times> state" where
  "after_binds sy execute pat s =
     unmount_binds sy execute pat (mounts_of sy (os s)) []
       (snd (find_mountpoints sy (putenv ''LVM_SUPPRESS_FD_WARNINGS'' ''1'' s)))"

definition after_mounts ::
  "sys \<Rightarrow> bool \<Rightarrow> (string \<Rightarrow> bool) \<Rightarrow> state \<Rightarrow> (error + string list) \<times> state" where
  "after_mounts sy execute pat s =
     unmount_mounts sy execute pat (mounts_of sy (os s)) (bind_cmds pat (mounts_of sy (os s)))
       (snd (after_binds sy execute pat s))"

definition after_groups ::
  "sys \<Rightarrow> bool \<Rightarrow> (string \<Rightarrow> bool) \<Rightarrow> state \<Rightarrow> string list \<times> state" where
  "after_groups sy execute pat s =
     find_volume_groups sy execute (loopbacks_of sy (os (snd (after_mounts sy execute pat s))))
       (bind_cmds pat (mounts_of sy (os s)) @ mount_cmds pat (mounts_of sy (os s)))
       (snd (find_loopbacks sy (snd (after_mounts sy execute pat s))))"

definition after_base ::
  "sys \<Rightarrow> bool \<Rightarrow> (string \<Rightarrow> bool) \<Rightarrow> state \<Rightarrow> (error + string list) \<times> state" where
  "after_base sy execute pat s =
     unmount_base sy execute (mounts_of sy (os s)) (fst (after_groups sy execute pat s))
       (snd (after_groups sy execute pat s))"

definition after_tmp ::
  "sys \<Rightarrow> bool \<Rightarrow> (string \<Rightarrow> bool) \<Rightarrow> (string \<Rightarrow> bool) \<Rightarrow> state \<Rightarrow> string list \<times> state" where
  "after_tmp sy execute pat glob_pattern s =
     clean_tmp execute pat (glob glob_pattern (os (snd (after_base sy execute pat s))))
       (fst (after_groups sy execute pat s) @ base_cmds (mounts_of sy (os s)))
       (snd (after_base sy execute pat s))"

definition after_sweep ::
  "sys \<Rightarrow> bool \<Rightarrow> (string \<Rightarrow> bool) \<Rightarrow> (string \<Rightarrow> bool) \<Rightarrow> state \<Rightarrow> string list \<times> state" where
  "after_sweep sy execute pat glob_pattern s =
     clean_image_mounter execute
       (glob image_mounter_glob (os (snd (after_tmp sy execute pat glob_pattern s))))
       (fst (after_tmp sy execute pat glob_pattern s))
       (snd (after_tmp sy execute pat glob_pattern s))"

lemma force_clean_stages:
  "force_clean sy execute pat glob_pattern s =
     (case fst (after_binds sy execute pat s) of
        Inl e \<Rightarrow> (Inl e, snd (after_binds sy execute pat s))
      | Inr c3 \<Rightarrow>
          (case fst (after_mounts sy execute pat s) of
             Inl e \<Rightarrow> (Inl e, snd (after_mounts sy execute pat s))
           | Inr c4 \<Rightarrow>
               (case fst (after_base sy execute pat s) of
                  Inl e \<Rightarrow> (Inl e, snd (after_base sy execute pat s))
                | Inr c8 \<Rightarrow> (Inr (fst (after_sweep sy execute pat glob_pattern s)),
                             snd (after_sweep sy execute pat glob_pattern s)))))"
  unfolding force_clean_unfold Let_def after_binds_def after_mounts_def after_groups_def
    after_base_def after_tmp_def after_sweep_def
  by (rule refl)

lemma force_clean_state_cases:
  "snd (force_clean sy execute pat glob_pattern s) = snd (after_binds sy execute pat s)
   \<or> snd (force_clean sy execute pat glob_pattern s) = snd (after_mounts sy execute pat s)
   \<or> snd (force_clean sy execute pat glob_pattern s) = snd (after_base sy execute pat s)
   \<or> snd (force_clean sy execute pat glob_pattern s)
        = snd (after_sweep sy execute pat glob_pattern s)"
  by (simp add: force_clean_stages split: sum.splits)

lemma force_clean_returns:
  "fst (force_clean sy execute pat glob_pattern s) = Inr cmds \<Longrightarrow>
   cmds = fst (after_sweep sy execute pat glob_pattern s)
   \<and> snd (force_clean sy execute pat glob_pattern s)
       = snd (after_sweep sy execute pat glob_pattern s)"
  by (simp add: force_clean_stages split: sum.splits)

lemma after_groups_cmds:
  "fst (after_groups sy execute pat s) =
     bind_cmds pat (mounts_of sy (os s)) @ mount_cmds pat (mounts_of sy (os s))
     @ group_cmds (loopbacks_of sy (os (snd (after_mounts sy execute pat s))))
         (pv_pairs (pvdisplay_of sy (os (snd (find_loopbacks sy
            (snd (after_mounts sy execute pat s)))))) None None)"
  by (simp add: after_groups_def find_volume_groups_cmds)

lemma after_tmp_cmds:
  "fst (after_tmp sy execute pat glob_pattern s) =
     sweep pat (glob glob_pattern (os (snd (after_base sy execute pat s))))
       (fst (after_groups sy execute pat s) @ base_cmds (mounts_of sy (os s)))"
  by (simp add: after_tmp_def clean_tmp_cmds)

lemma after_sweep_cmds:
  "fst (after_sweep sy execute pat glob_pattern s) =
     sweep (\<lambda>p. True)
       (glob image_mounter_glob (os (snd (after_tmp sy execute pat glob_pattern s))))
       (fst (after_tmp sy execute pat glob_pattern s))"
  by (simp add: after_sweep_def clean_image_mounter_cmds)

section \<open>Resources that match no signal\<close>

text \<open>
  An entry of the list names the resource \<open>p\<close> when it is one of the five descriptions
  with \<open>p\<close> as its target.  An operation of the trace touches \<open>p\<close> when it is one of the
  four release commands with \<open>p\<close> as its argument, or the removal (\<open>os.remove\<close>,
  \<open>os.rmdir\<close>, \<open>os.unlink\<close>) of \<open>p\<close> itself.  Besides these, \<open>force_clean\<close> only reads
  the tables, sets the environment variable and sleeps.
\<close>

definition names :: "string \<Rightarrow> string \<Rightarrow> bool" where
  "names c p =
     (c = umount_cmd p \<or> c = rm_cmd p \<or> c = fusermount_cmd p \<or> c = lvchange_cmd p
      \<or> c = losetup_cmd p)"

fun touches :: "op \<Rightarrow> string \<Rightarrow> bool" where
  "touches (Exec args) p =
     (args = [''umount'', p] \<or> args = [''fusermount'', ''-u'', p]
      \<or> args = [''lvchange'', ''-a'', ''n'', p] \<or> args = [''losetup'', ''-d'', p])"
| "touches (Unlink q) p = (q = p)"
| "touches (Rmdir q) p = (q = p)"
| "touches (Remove q) p = (q = p)"
| "touches (Putenv k v) p = False"
| "touches Sleep p = False"

definition untouched :: "string \<Rightarrow> state \<Rightarrow> state \<Rightarrow> bool" where
  "untouched p s s' = (\<exists>new. trace s' = trace s @ new \<and> list_all (\<lambda>x. \<not> touches x p) new)"

text \<open>
  The mount points that \<open>force_clean\<close> releases, by the tests of its three stages over
  the mount table: a bind mount at a path of the pattern, a mount without \<open>bind\<close> from a
  marked source or at a path of the pattern, any mount at a marked path.
\<close>

definition released :: "(string \<Rightarrow> bool) \<Rightarrow> mounts \<Rightarrow> string \<Rightarrow> bool" where
  "released pat ms p =
     list_ex (\<lambda>(mp, orig, fs, opts).
                mp = p \<and> ((sublist ''bind'' opts \<and> pat mp)
                          \<or> (\<not> sublist ''bind'' opts \<and> (marker orig \<or> pat mp))
                          \<or> marker mp)) ms"

lemma untouched_refl [simp]: "untouched p s s"
  by (simp add: untouched_def)

lemma untouched_step:
  "untouched p s s1 \<Longrightarrow> trace s2 = trace s1 @ [x] \<Longrightarrow> \<not> touches x p \<Longrightarrow> untouched p s s2"
  by (auto simp: untouched_def)

lemma trace_primitives [simp]:
  "trace (snd (os_remove q s)) = trace s @ [Remove q]"
  "trace (snd (os_unlink q s)) = trace s @ [Unlink q]"
  "trace (snd (os_rmdir q s)) = trace s @ [Rmdir q]"
  "trace (sleep sy s) = trace s @ [Sleep]"
  "trace (snd (check_call sy cmd s)) = trace s @ [Exec cmd]"
  "trace (snd (check_output sy cmd s)) = trace s @ [Exec cmd]"
  by (simp_all add: os_remove_def os_unlink_def os_rmdir_def sleep_def check_call_def
        check_output_def Let_def split: option.splits node.splits prod.splits)

lemma untouched_unmount:
  assumes "mp \<noteq> p" and "path_join mp ''avfs'' \<noteq> p"
    and "cmd = [''umount''] \<or> cmd = [''fusermount'', ''-u'']"
  shows "unmount_keeps (untouched p s) sy cmd mp"
  unfolding unmount_keeps_def
proof (intro allI impI conjI)
  fix s1 assume s1: "untouched p s s1"
  show "untouched p s (snd (os_remove (path_join mp ''avfs'') s1))"
    using s1 by (rule untouched_step [where x = "Remove (path_join mp ''avfs'')"])
      (use assms in simp_all)
  show "untouched p s (snd (check_call sy (cmd @ [mp]) s1))"
    using s1 by (rule untouched_step [where x = "Exec (cmd @ [mp])"]) (use assms in auto)
qed

lemma untouched_removal:
  assumes "mp \<noteq> p"
  shows "removal_keeps (untouched p s) sy mp"
  unfolding removal_keeps_def
proof (intro allI impI conjI)
  fix s1 assume s1: "untouched p s s1"
  show "untouched p s (sleep sy s1)"
    using s1 by (rule untouched_step [where x = Sleep]) simp_all
  show "untouched p s (snd (os_unlink mp s1))"
    using s1 by (rule untouched_step [where x = "Unlink mp"]) (use assms in simp_all)
  show "untouched p s (snd (os_rmdir mp s1))"
    using s1 by (rule untouched_step [where x = "Rmdir mp"]) (use assms in simp_all)
qed

lemma untouched_output:
  "\<not> touches (Exec cmd) p \<Longrightarrow> untouched p s s1 \<Longrightarrow> untouched p s (snd (check_output sy cmd s1))"
  by (rule untouched_step [where x = "Exec cmd"]) simp_all

lemma untouched_rmdir:
  "f \<noteq> p \<Longrightarrow> untouched p s s1 \<Longrightarrow> untouched p s (snd (os_rmdir f s1))"
  by (rule untouched_step [where x = "Rmdir f"]) simp_all

lemma in_glob: "f \<in> set (glob accepts w) \<Longrightarrow> accepts f"
  by (simp add: glob_def)

lemma find_loopbacks_snd:
  "snd (find_loopbacks sy s) = snd (check_output sy [''losetup'', ''-a''] s)"
  by (simp add: find_loopbacks_def split: prod.splits sum.splits)

lemma released_bind:
  "(mp, orig, fs, opts) \<in> set ms \<Longrightarrow> sublist ''bind'' opts \<Longrightarrow> pat mp \<Longrightarrow> released pat ms mp"
  unfolding released_def list_ex_iff by (rule bexI [of _ "(mp, orig, fs, opts)"]) simp_all

lemma released_mount:
  "(mp, orig, fs, opts) \<in> set ms \<Longrightarrow> \<not> sublist ''bind'' opts \<Longrightarrow> marker orig \<or> pat mp
   \<Longrightarrow> released pat ms mp"
  unfolding released_def list_ex_iff by (rule bexI [of _ "(mp, orig, fs, opts)"]) simp_all

lemma released_base:
  "(mp, orig, fs, opts) \<in> set ms \<Longrightarrow> marker mp \<Longrightarrow> released pat ms mp"
  unfolding released_def list_ex_iff by (rule bexI [of _ "(mp, orig, fs, opts)"]) simp_all

text \<open>
  C2, as the code has it.  \<open>p\<close> matches no signal: not the pattern, not the fixed glob,
  no marker in it, no marker in the source of a mount at \<open>p\<close>, no marker in the backing
  file of a loopback device \<open>p\<close>, and, for a volume group \<open>p\<close>, no physical volume on a
  loopback device with a marked backing file.  Then no entry of a list that \<open>force_clean\<close>
  returns names \<open>p\<close>.  If moreover \<open>p\<close> is not the \<open>avfs\<close> entry of a mount point that
  \<open>force_clean\<close> releases, nothing \<open>force_clean\<close> does, in either mode and also when an
  exception ends the run, touches \<open>p\<close>.
\<close>

theorem unowned_untouched:
  assumes "\<not> pat p" and "\<not> image_mounter_glob p" and "\<not> marker p"
    and "\<forall>orig fs opts. (p, orig, fs, opts) \<in> set (mounts_of sy (os s)) \<longrightarrow> \<not> marker orig"
    and "\<forall>w backing. map_of (loopbacks_of sy w) p = Some backing \<longrightarrow> \<not> marker backing"
    and "\<forall>w w' pv backing. (pv, p) \<in> set (pv_pairs (pvdisplay_of sy w) None None)
            \<longrightarrow> map_of (loopbacks_of sy w') pv = Some backing \<longrightarrow> \<not> marker backing"
  shows "(\<forall>cmds. fst (force_clean sy execute pat glob_pattern s) = Inr cmds
            \<longrightarrow> list_all (\<lambda>c. \<not> names c p) cmds)
         \<and> ((\<forall>mp. released pat (mounts_of sy (os s)) mp \<longrightarrow> path_join mp ''avfs'' \<noteq> p)
              \<longrightarrow> untouched p s (snd (force_clean sy execute pat glob_pattern s)))"
proof (rule conjI)
  let ?ms = "mounts_of sy (os s)"
  show "\<forall>cmds. fst (force_clean sy execute pat glob_pattern s) = Inr cmds
            \<longrightarrow> list_all (\<lambda>c. \<not> names c p) cmds"
  proof (intro allI impI)
    fix cmds assume "fst (force_clean sy execute pat glob_pattern s) = Inr cmds"
    then have "force_clean sy execute pat glob_pattern s
                 = (Inr cmds, snd (force_clean sy execute pat glob_pattern s))"
      by (simp add: prod_eq_iff)
    from force_clean_plan [OF this] obtain w1 w2 w3 w4 where
      cmds: "cmds = plan pat ?ms (loopbacks_of sy w1) (pvdisplay_of sy w2)
                      (glob glob_pattern w3) (glob image_mounter_glob w4)"
      by blast
    from plan_splits [of pat ?ms "loopbacks_of sy w1" "pvdisplay_of sy w2"
                         "glob glob_pattern w3" "glob image_mounter_glob w4"]
    obtain extra where
      split: "cmds = bind_cmds pat ?ms @ mount_cmds pat ?ms
                @ group_cmds (loopbacks_of sy w1) (pv_pairs (pvdisplay_of sy w2) None None)
                @ base_cmds ?ms @ extra"
      and extra: "set extra \<subseteq> {rm_cmd f |f. (f \<in> set (glob glob_pattern w3) \<and> pat f)
                                    \<or> f \<in> set (glob image_mounter_glob w4)}"
      unfolding cmds by auto
    have "\<not> names c p" if c: "c \<in> set cmds" for c
    proof
      assume n: "names c p"
      from c split consider "c \<in> set (bind_cmds pat ?ms)" | "c \<in> set (mount_cmds pat ?ms)"
        | "c \<in> set (group_cmds (loopbacks_of sy w1) (pv_pairs (pvdisplay_of sy w2) None None))"
        | "c \<in> set (base_cmds ?ms)" | "c \<in> set extra"
        by auto
      then show False
      proof cases
        case 1
        then obtain mp where "pat mp" "c = umount_cmd mp"
          by (auto simp: in_bind_cmds)
        with n assms(1) show False by (auto simp: names_def)
      next
        case 2
        then obtain mp orig fs opts where
          m: "(mp, orig, fs, opts) \<in> set ?ms" "marker orig \<or> pat mp"
             "c = umount_cmd mp \<or> c = rm_cmd mp"
          by (auto simp: in_mount_cmds)
        from m(3) n have "mp = p" by (auto simp: names_def)
        with m(1,2) assms(1,4) show False by blast
      next
        case 3
        then obtain pv vg backing where
          g: "(pv, vg) \<in> set (pv_pairs (pvdisplay_of sy w2) None None)"
             "map_of (loopbacks_of sy w1) pv = Some backing" "marker backing"
             "c = lvchange_cmd vg \<or> c = losetup_cmd pv"
          by (auto simp: in_group_cmds)
        from g(4) n have "vg = p \<or> pv = p" by (auto simp: names_def)
        with g(1-3) assms(5,6) show False by blast
      next
        case 4
        then obtain mp where m: "marker mp" "c = fusermount_cmd mp \<or> c = rm_cmd mp"
          by (auto simp: in_base_cmds)
        from m(2) n have "mp = p" by (auto simp: names_def)
        with m(1) assms(3) show False by blast
      next
        case 5
        with extra obtain f where "c = rm_cmd f"
          "(f \<in> set (glob glob_pattern w3) \<and> pat f) \<or> f \<in> set (glob image_mounter_glob w4)"
          by auto
        with n assms(1,2) show False by (auto simp: names_def dest: in_glob)
      qed
    qed
    then show "list_all (\<lambda>c. \<not> names c p) cmds" by (simp add: list_all_iff)
  qed
next
  let ?ms = "mounts_of sy (os s)"
  let ?I = "untouched p s"
  show "(\<forall>mp. released pat ?ms mp \<longrightarrow> path_join mp ''avfs'' \<noteq> p)
          \<longrightarrow> ?I (snd (force_clean sy execute pat glob_pattern s))"
  proof
  assume avfs: "\<forall>mp. released pat ?ms mp \<longrightarrow> path_join mp ''avfs'' \<noteq> p"
  have i0: "?I (snd (find_mountpoints sy (putenv ''LVM_SUPPRESS_FD_WARNINGS'' ''1'' s)))"
    by (simp add: find_mountpoints_eq untouched_def logged_def)
  have i3: "?I (snd (after_binds sy execute pat s))"
    unfolding after_binds_def
  proof (rule unmount_binds_inv [where I = ?I, OF _ i0])
    fix mp orig fs opts
    assume m: "(mp, orig, fs, opts) \<in> set ?ms" "sublist ''bind'' opts" "pat mp"
    with assms(1) have "mp \<noteq> p" by blast
    moreover from m avfs have "path_join mp ''avfs'' \<noteq> p"
      by (blast intro: released_bind)
    ultimately show "unmount_keeps ?I sy [''umount''] mp" by (simp add: untouched_unmount)
  qed
  have i4: "?I (snd (after_mounts sy execute pat s))"
    unfolding after_mounts_def
  proof (rule unmount_mounts_inv [where I = ?I, OF _ i3])
    fix mp orig fs opts
    assume m: "(mp, orig, fs, opts) \<in> set ?ms" "\<not> sublist ''bind'' opts" "marker orig \<or> pat mp"
    with assms(1,4) have "mp \<noteq> p" by blast
    moreover from m avfs have "path_join mp ''avfs'' \<noteq> p"
      by (blast intro: released_mount)
    ultimately show "unmount_keeps ?I sy [''umount''] mp \<and> removal_keeps ?I sy mp"
      by (simp add: untouched_unmount untouched_removal)
  qed
  have i5: "?I (snd (find_loopbacks sy (snd (after_mounts sy execute pat s))))"
    using i4 by (simp add: find_loopbacks_snd untouched_output)
  have i7: "?I (snd (after_groups sy execute pat s))"
    unfolding after_groups_def
  proof (rule find_volume_groups_inv [where I = ?I])
    show "?I (snd (check_output sy [''pvdisplay'']
                     (snd (find_loopbacks sy (snd (after_mounts sy execute pat s))))))"
      using i5 by (intro untouched_output) simp_all
  next
    fix pv vg backing s1
    assume g: "(pv, vg) \<in> set (pv_pairs (pvdisplay_of sy
                   (os (snd (find_loopbacks sy (snd (after_mounts sy execute pat s)))))) None None)"
      "map_of (loopbacks_of sy (os (snd (after_mounts sy execute pat s)))) pv = Some backing"
      "marker backing" and s1: "?I s1"
    from g assms(6) have "vg \<noteq> p" by blast
    moreover from g assms(5) have "pv \<noteq> p" by blast
    ultimately show "?I (snd (check_output sy [''lvchange'', ''-a'', ''n'', vg] s1))
        \<and> ?I (snd (check_output sy [''losetup'', ''-d'', pv] s1))"
      using s1 by (simp add: untouched_output)
  qed
  have i8: "?I (snd (after_base sy execute pat s))"
    unfolding after_base_def
  proof (rule unmount_base_inv [where I = ?I, OF _ i7])
    fix mp orig fs opts
    assume m: "(mp, orig, fs, opts) \<in> set ?ms" "marker mp"
    with assms(3) have "mp \<noteq> p" by blast
    moreover from m avfs have "path_join mp ''avfs'' \<noteq> p"
      by (blast intro: released_base)
    ultimately show "unmount_keeps ?I sy [''fusermount'', ''-u''] mp \<and> removal_keeps ?I sy mp"
      by (simp add: untouched_unmount untouched_removal)
  qed
  have i9: "?I (snd (after_tmp sy execute pat glob_pattern s))"
    unfolding after_tmp_def
  proof (rule clean_tmp_inv [where I = ?I, OF _ i8])
    fix f s1 assume "pat f" "?I s1"
    with assms(1) show "?I (snd (os_rmdir f s1))" by (intro untouched_rmdir) auto
  qed
  have i10: "?I (snd (after_sweep sy execute pat glob_pattern s))"
    unfolding after_sweep_def
  proof (rule clean_image_mounter_inv [where I = ?I, OF _ i9])
    fix f s1
    assume "f \<in> set (glob image_mounter_glob (os (snd (after_tmp sy execute pat glob_pattern s))))"
      "?I s1"
    with assms(2) show "?I (snd (os_rmdir f s1))"
      by (intro untouched_rmdir) (auto dest: in_glob)
  qed
  from force_clean_state_cases [of sy execute pat glob_pattern s] i3 i4 i8 i10
  show "?I (snd (force_clean sy execute pat glob_pattern s))" by auto
  qed
qed

lemma avfs_entry_last: "last (path_join mp ''avfs'') = CHR ''s''"
  by (simp add: path_join_def)

definition home_and_image :: "string list" where
  "home_and_image =
     [''/dev/loop0 on /tmp/im_1_a type ext4 (rw)'', ''/dev/sda1 on /home type ext4 (rw)'']"

definition home_state :: state where
  "home_state =
     \<lparr>os = \<lparr>nodes = [(''/tmp/im_1_a'', Dir), (''/home'', Dir)],
            mounted = [''/tmp/im_1_a'', ''/home'']\<rparr>,
      environ = Map.empty, trace = []\<rparr>"

theorem unowned_untouched_witness:
  "fst (force_clean (host home_and_image [] []) True default_pattern default_glob home_state)
     = Inr [''umount /tmp/im_1_a'', ''rm -Rf /tmp/im_1_a'']
   \<and> list_all (\<lambda>c. \<not> names c ''/home'') [''umount /tmp/im_1_a'', ''rm -Rf /tmp/im_1_a'']
   \<and> trace (snd (force_clean (host home_and_image [] []) True default_pattern default_glob
                    home_state))
     = [Putenv ''LVM_SUPPRESS_FD_WARNINGS'' ''1'', Exec [''mount''],
        Exec [''umount'', ''/tmp/im_1_a''], Rmdir ''/tmp/im_1_a'',
        Exec [''losetup'', ''-a''], Exec [''pvdisplay'']]
   \<and> untouched ''/home'' home_state
        (snd (force_clean (host home_and_image [] []) True default_pattern default_glob
                home_state))"
proof -
  let ?H = "host home_and_image [] []"
  have f: "fst (force_clean ?H True default_pattern default_glob home_state)
             = Inr [''umount /tmp/im_1_a'', ''rm -Rf /tmp/im_1_a'']"
    by code_simp
  have t: "trace (snd (force_clean ?H True default_pattern default_glob home_state))
     = [Putenv ''LVM_SUPPRESS_FD_WARNINGS'' ''1'', Exec [''mount''],
        Exec [''umount'', ''/tmp/im_1_a''], Rmdir ''/tmp/im_1_a'',
        Exec [''losetup'', ''-a''], Exec [''pvdisplay'']]"
    by code_simp
  have a: "\<not> default_pattern ''/home''" by code_simp
  have b: "\<not> image_mounter_glob ''/home''" by code_simp
  have c: "\<not> marker ''/home''" by code_simp
  have tbl: "read_mounts home_and_image []
               = [(''/tmp/im_1_a'', ''/dev/loop0'', ''ext4'', ''rw''),
                  (''/home'', ''/dev/sda1'', ''ext4'', ''rw'')]"
    by code_simp
  have src: "\<not> marker ''/dev/sda1''" by code_simp
  have d: "\<forall>orig fs opts. (''/home'', orig, fs, opts) \<in> set (mounts_of ?H (os home_state))
             \<longrightarrow> \<not> marker orig"
    using src by (simp add: tbl)
  have e: "\<forall>w backing. map_of (loopbacks_of ?H w) ''/home'' = Some backing \<longrightarrow> \<not> marker backing"
    by simp
  have g: "\<forall>w w' pv backing. (pv, ''/home'') \<in> set (pv_pairs (pvdisplay_of ?H w) None None)
             \<longrightarrow> map_of (loopbacks_of ?H w') pv = Some backing \<longrightarrow> \<not> marker backing"
    by simp
  have h: "\<forall>mp. released default_pattern (mounts_of ?H (os home_state)) mp
             \<longrightarrow> path_join mp ''avfs'' \<noteq> ''/home''"
  proof (intro allI impI notI)
    fix mp assume "path_join mp ''avfs'' = ''/home''"
    then have "last (path_join mp ''avfs'') = last ''/home''" by (rule arg_cong)
    then show False by (simp add: avfs_entry_last)
  qed
  from unowned_untouched [where pat = default_pattern and p = "''/home''" and sy = ?H
         and s = home_state and execute = True and glob_pattern = default_glob,
         OF a b c d e g] f t h
  show ?thesis by simp
qed

text \<open>
  C2 as it is worded fails.  The image is mounted on \<open>/mnt/x\<close>, which has an \<open>avfs\<close>
  entry.  The path \<open>/mnt/x/avfs\<close> matches no signal and is on no list, but the executing
  run removes it with \<open>os.remove\<close> (and then does not run \<open>umount\<close>).
\<close>

definition image_elsewhere :: "string list" where
  "image_elsewhere = [''/tmp/image_mounter_1/ewf1 on /mnt/x type fuse (rw)'']"

definition image_elsewhere_state :: state where
  "image_elsewhere_state =
     \<lparr>os = \<lparr>nodes = [(''/mnt/x'', Dir), (''/mnt/x/avfs'', File)], mounted = [''/mnt/x'']\<rparr>,
      environ = Map.empty, trace = []\<rparr>"

theorem avfs_entry_removed:
  "\<not> default_pattern ''/mnt/x/avfs'' \<and> \<not> image_mounter_glob ''/mnt/x/avfs''
   \<and> \<not> marker ''/mnt/x/avfs''
   \<and> mounts_of (host image_elsewhere [] []) (os image_elsewhere_state)
       = [(''/mnt/x'', ''/tmp/image_mounter_1/ewf1'', ''fuse'', ''rw'')]
   \<and> lstat (os image_elsewhere_state) ''/mnt/x/avfs'' = Some File
   \<and> fst (force_clean (host image_elsewhere [] []) True default_pattern default_glob
            image_elsewhere_state)
       = Inr [''umount /mnt/x'', ''rm -Rf /mnt/x'']
   \<and> trace (snd (force_clean (host image_elsewhere [] []) True default_pattern default_glob
                    image_elsewhere_state))
       = [Putenv ''LVM_SUPPRESS_FD_WARNINGS'' ''1'', Exec [''mount''],
          Remove ''/mnt/x/avfs'', Sleep, Sleep, Sleep, Sleep, Sleep,
          Exec [''losetup'', ''-a''], Exec [''pvdisplay'']]
   \<and> touches (Remove ''/mnt/x/avfs'') ''/mnt/x/avfs''
   \<and> lstat (os (snd (force_clean (host image_elsewhere [] []) True default_pattern
                       default_glob image_elsewhere_state))) ''/mnt/x/avfs'' = None"
  by code_simp

section \<open>Dry run and execution\<close>

text \<open>
  What an executing run can take away from the directory entries: \<open>lost R base s\<close> holds
  when the entries in state \<open>s\<close> are those of \<open>base\<close> without some paths of \<open>R\<close>.
\<close>

definition lost :: "string set \<Rightarrow> (string \<times> node) list \<Rightarrow> state \<Rightarrow> bool" where
  "lost R base s = (\<exists>D. D \<subseteq> R \<and> nodes (os s) = filter (\<lambda>(k, v). k \<notin> D) base)"

lemma lost_mono: "R \<subseteq> R' \<Longrightarrow> lost R base s \<Longrightarrow> lost R' base s"
  by (auto simp: lost_def)

lemma lost_same: "lost R base s1 \<Longrightarrow> nodes (os s2) = nodes (os s1) \<Longrightarrow> lost R base s2"
  by (simp add: lost_def)

lemma lost_delete:
  assumes "lost R base s1" and "q \<in> R" and "nodes (os s2) = AList.delete q (nodes (os s1))"
  shows "lost R base s2"
proof -
  from assms(1) obtain D where D: "D \<subseteq> R" "nodes (os s1) = filter (\<lambda>(k, v). k \<notin> D) base"
    by (auto simp: lost_def)
  have "nodes (os s2) = filter (\<lambda>(k, v). k \<notin> insert q D) base"
    unfolding assms(3) D(2) AList.delete_eq filter_filter
    by (rule filter_cong) auto
  moreover have "insert q D \<subseteq> R" using D(1) assms(2) by simp
  ultimately show ?thesis unfolding lost_def by blast
qed

lemma nodes_primitives:
  "nodes (os (snd (os_remove q s))) = nodes (os s)
     \<or> nodes (os (snd (os_remove q s))) = AList.delete q (nodes (os s))"
  "nodes (os (snd (os_unlink q s))) = nodes (os s)
     \<or> nodes (os (snd (os_unlink q s))) = AList.delete q (nodes (os s))"
  "nodes (os (snd (os_rmdir q s))) = nodes (os s)
     \<or> nodes (os (snd (os_rmdir q s))) = AList.delete q (nodes (os s))"
  by (simp_all add: os_remove_def os_unlink_def os_rmdir_def Let_def del_node_def
        split: option.splits node.splits)

lemma lost_remove: "q \<in> R \<Longrightarrow> lost R base s \<Longrightarrow> lost R base (snd (os_remove q s))"
  using nodes_primitives(1) [of q s] by (auto intro: lost_same lost_delete)

lemma lost_unlink: "q \<in> R \<Longrightarrow> lost R base s \<Longrightarrow> lost R base (snd (os_unlink q s))"
  using nodes_primitives(2) [of q s] by (auto intro: lost_same lost_delete)

lemma lost_rmdir: "q \<in> R \<Longrightarrow> lost R base s \<Longrightarrow> lost R base (snd (os_rmdir q s))"
  using nodes_primitives(3) [of q s] by (auto intro: lost_same lost_delete)

text \<open>Commands and sleeping leave the directory entries alone.\<close>

definition quiet :: "sys \<Rightarrow> bool" where
  "quiet sy = ((\<forall>cmd w. nodes (snd (run sy cmd w)) = nodes w) \<and> (\<forall>w. nodes (tick sy w) = nodes w))"

lemma os_after_command:
  "os (snd (check_call sy cmd s)) = snd (run sy cmd (os s))"
  "os (snd (check_output sy cmd s)) = snd (run sy cmd (os s))"
  by (simp_all add: check_call_def check_output_def split: prod.splits option.splits)

lemma quiet_nodes:
  assumes "quiet sy"
  shows "nodes (os (snd (check_call sy cmd s))) = nodes (os s)"
    and "nodes (os (snd (check_output sy cmd s))) = nodes (os s)"
    and "nodes (os (sleep sy s)) = nodes (os s)"
    and "nodes (snd (run sy cmd w)) = nodes w"
    and "nodes (tick sy w) = nodes w"
  using assms by (simp_all add: quiet_def os_after_command)

lemma lost_unmount:
  assumes "quiet sy" and "path_join mp ''avfs'' \<in> R"
  shows "unmount_keeps (lost R base) sy cmd mp"
  unfolding unmount_keeps_def
proof (intro allI impI conjI)
  fix s assume s: "lost R base s"
  show "lost R base (snd (os_remove (path_join mp ''avfs'') s))"
    using assms(2) s by (rule lost_remove)
  show "lost R base (snd (check_call sy (cmd @ [mp]) s))"
    using s by (rule lost_same) (simp add: quiet_nodes [OF assms(1)])
qed

lemma lost_removal:
  assumes "quiet sy" and "mp \<in> R"
  shows "removal_keeps (lost R base) sy mp"
  unfolding removal_keeps_def
proof (intro allI impI conjI)
  fix s assume s: "lost R base s"
  show "lost R base (sleep sy s)"
    using s by (rule lost_same) (simp add: quiet_nodes [OF assms(1)])
  show "lost R base (snd (os_unlink mp s))"
    using assms(2) s by (rule lost_unlink)
  show "lost R base (snd (os_rmdir mp s))"
    using assms(2) s by (rule lost_rmdir)
qed

lemma lost_output:
  assumes "quiet sy" and "lost R base s"
  shows "lost R base (snd (check_output sy cmd s))"
  using assms(2) by (rule lost_same) (simp add: quiet_nodes [OF assms(1)])

text \<open>Sweeping a listing that lacks some entries whose removal is already on the list.\<close>

lemma sweep_keeps: "c \<in> set commands \<Longrightarrow> c \<in> set (sweep pat folders commands)"
  using sweep_appends [of pat folders commands] by auto

lemma sweep_skip:
  assumes "\<forall>r \<in> D. r \<in> set folders \<longrightarrow> pat r \<longrightarrow> rm_cmd r \<in> set commands"
  shows "sweep pat (filter (\<lambda>f. f \<notin> D) folders) commands = sweep pat folders commands"
  using assms
proof (induction folders arbitrary: commands)
  case Nil
  then show ?case by simp
next
  case (Cons f folders)
  let ?c = "if pat f \<and> rm_cmd f \<notin> set commands then commands @ [rm_cmd f] else commands"
  have tail: "\<forall>r \<in> D. r \<in> set folders \<longrightarrow> pat r \<longrightarrow> rm_cmd r \<in> set ?c"
    using Cons.prems by auto
  show ?case
  proof (cases "f \<in> D")
    case True
    with Cons.prems have "pat f \<longrightarrow> rm_cmd f \<in> set commands" by simp
    then have "?c = commands" by auto
    with True Cons.IH [OF tail] show ?thesis by simp
  next
    case False
    with Cons.IH [OF tail] show ?thesis by simp
  qed
qed

lemma filter_keys:
  "filter accepts (map fst (filter (\<lambda>(k, v). k \<notin> D) ns))
     = filter (\<lambda>f. f \<notin> D) (filter accepts (map fst ns))"
  by (induction ns) auto

lemma glob_filtered:
  "nodes w' = filter (\<lambda>(k, v). k \<notin> D) (nodes w)
   \<Longrightarrow> glob accepts w' = filter (\<lambda>f. f \<notin> D) (glob accepts w)"
  by (simp add: glob_def filter_keys)

text \<open>The \<open>avfs\<close> entry of a mount point is never what \<open>/tmp/image_mounter_*\<close> accepts.\<close>

lemma last_slash: "CHR ''/'' \<notin> set r \<Longrightarrow>
    length (dropWhile (\<lambda>c. c \<noteq> CHR ''/'') (rev (p @ r)))
      = length (dropWhile (\<lambda>c. c \<noteq> CHR ''/'') (rev p))"
  by (simp add: dropWhile_append)

lemma image_mounter_glob_slash:
  assumes "image_mounter_glob q"
  shows "length (dropWhile (\<lambda>c. c \<noteq> CHR ''/'') (rev q)) = 5" and "19 \<le> length q"
proof -
  from assms have q: "q = ''/tmp/image_mounter_'' @ drop 19 q" "CHR ''/'' \<notin> set (drop 19 q)"
    unfolding image_mounter_glob_def by (metis append_take_drop_id, simp)
  have "length (dropWhile (\<lambda>c. c \<noteq> CHR ''/'') (rev (''/tmp/image_mounter_'' @ drop 19 q))) = 5"
    using q(2) by (subst last_slash) simp_all
  with q(1) show "length (dropWhile (\<lambda>c. c \<noteq> CHR ''/'') (rev q)) = 5" by simp
  from assms have "length (take 19 q) = 19"
    unfolding image_mounter_glob_def by simp
  then show "19 \<le> length q" by simp
qed

lemma avfs_not_swept: "\<not> image_mounter_glob (path_join mp ''avfs'')"
proof
  assume g: "image_mounter_glob (path_join mp ''avfs'')"
  show False
  proof (cases "mp = [] \<or> last mp = CHR ''/''")
    case True
    then have q: "path_join mp ''avfs'' = mp @ ''avfs''" by (simp add: path_join_def)
    have same: "length (dropWhile (\<lambda>c. c \<noteq> CHR ''/'') (rev (mp @ ''avfs'')))
            = length (dropWhile (\<lambda>c. c \<noteq> CHR ''/'') (rev mp))"
      by (rule last_slash) simp
    have "length (dropWhile (\<lambda>c. c \<noteq> CHR ''/'') (rev mp)) = length mp"
    proof (cases "mp = []")
      case True
      then show ?thesis by simp
    next
      case False
      with \<open>mp = [] \<or> last mp = CHR ''/''\<close> have "hd (rev mp) = CHR ''/''" "rev mp \<noteq> []"
        by (simp_all add: hd_rev)
      then have "dropWhile (\<lambda>c. c \<noteq> CHR ''/'') (rev mp) = rev mp"
        by (cases "rev mp") simp_all
      then show ?thesis by simp
    qed
    with same have "length (mp @ ''avfs'') = 9"
      using image_mounter_glob_slash(1) [OF g] unfolding q by simp
    with image_mounter_glob_slash(2) [OF g] show False unfolding q by simp
  next
    case False
    then have q: "path_join mp ''avfs'' = (mp @ ''/'') @ ''avfs''" by (simp add: path_join_def)
    have "length (dropWhile (\<lambda>c. c \<noteq> CHR ''/'') (rev ((mp @ ''/'') @ ''avfs'')))
            = length (dropWhile (\<lambda>c. c \<noteq> CHR ''/'') (rev (mp @ ''/'')))"
      by (rule last_slash) simp
    also have "\<dots> = Suc (length mp)" by simp
    finally have "length ((mp @ ''/'') @ ''avfs'') = 9"
      using image_mounter_glob_slash(1) [OF g] unfolding q by simp
    with image_mounter_glob_slash(2) [OF g] show False unfolding q by simp
  qed
qed

lemma lost_start: "nodes (os s1) = base \<Longrightarrow> lost R base s1"
  unfolding lost_def by (rule exI [of _ "{}"]) simp

lemma glob_nodes: "nodes w = nodes w' \<Longrightarrow> glob accepts w = glob accepts w'"
  by (simp add: glob_def)

text \<open>The tables of loopback devices and of physical volumes read the same in every state.\<close>

definition frozen :: "sys \<Rightarrow> bool" where
  "frozen sy = (\<forall>w w'. loopbacks_of sy w = loopbacks_of sy w'
                       \<and> pvdisplay_of sy w = pvdisplay_of sy w')"

text \<open>
  C4, amended.  Suppose the listing commands print the same tables whenever they are run,
  commands and sleeping change no directory entry, and no mount point of the mount table has
  an \<open>avfs\<close> entry that both \<open>glob_pattern\<close> and \<open>pattern\<close> accept.  If the run with
  \<open>execute=True\<close> returns a list, the run with \<open>execute=False\<close> from the same state
  returns the same list.  The run with \<open>execute=False\<close> sets the environment variable
  \<open>LVM_SUPPRESS_FD_WARNINGS\<close>, runs the three listing commands \<open>mount\<close>, \<open>losetup -a\<close>
  and \<open>pvdisplay\<close> and nothing else, and changes no directory entry.
\<close>

theorem dry_run_same_list:
  assumes "frozen sy" and "quiet sy"
    and "\<forall>mp orig fs opts. (mp, orig, fs, opts) \<in> set (mounts_of sy (os s))
           \<longrightarrow> \<not> (glob_pattern (path_join mp ''avfs'') \<and> pat (path_join mp ''avfs''))"
    and "fst (force_clean sy True pat glob_pattern s) = Inr cmds"
  shows "fst (force_clean sy False pat glob_pattern s) = Inr cmds
         \<and> trace (snd (force_clean sy False pat glob_pattern s))
             = trace s @ [Putenv ''LVM_SUPPRESS_FD_WARNINGS'' ''1'', Exec [''mount''],
                          Exec [''losetup'', ''-a''], Exec [''pvdisplay'']]
         \<and> environ (snd (force_clean sy False pat glob_pattern s))
             = (environ s)(''LVM_SUPPRESS_FD_WARNINGS'' \<mapsto> ''1'')
         \<and> nodes (os (snd (force_clean sy False pat glob_pattern s))) = nodes (os s)"
proof -
  let ?ms = "mounts_of sy (os s)"
  define base where "base = nodes (os s)"
  define L where "L = loopbacks_of sy (os s)"
  define P where "P = pvdisplay_of sy (os s)"
  have L: "loopbacks_of sy w = L" for w
    using assms(1) unfolding frozen_def L_def by blast
  have P: "pvdisplay_of sy w = P" for w
    using assms(1) unfolding frozen_def P_def by blast
  define c7 where
    "c7 = bind_cmds pat ?ms @ mount_cmds pat ?ms @ group_cmds L (pv_pairs P None None)"
  define c8 where "c8 = c7 @ base_cmds ?ms"
  define A where "A = {path_join mp ''avfs'' |mp. mp \<in> fst ` set ?ms}"
  define R1 where "R1 = A \<union> {r. rm_cmd r \<in> set c8}"
  have avfs: "path_join mp ''avfs'' \<in> R1" if "(mp, orig, fs, opts) \<in> set ?ms" for mp orig fs opts
    using that unfolding R1_def A_def by force
  have g7: "fst (after_groups sy True pat s) = c7"
    by (simp add: after_groups_cmds L P c7_def)
  let ?I = "lost R1 base"
  have i0: "?I (snd (find_mountpoints sy (putenv ''LVM_SUPPRESS_FD_WARNINGS'' ''1'' s)))"
    by (rule lost_start)
       (simp add: find_mountpoints_eq logged_def putenv_def base_def quiet_nodes [OF assms(2)])
  have i3: "?I (snd (after_binds sy True pat s))"
    unfolding after_binds_def
  proof (rule unmount_binds_inv [where I = ?I, OF _ i0])
    fix mp orig fs opts assume "(mp, orig, fs, opts) \<in> set ?ms"
    then show "unmount_keeps ?I sy [''umount''] mp"
      by (intro lost_unmount assms(2) avfs)
  qed
  have i4: "?I (snd (after_mounts sy True pat s))"
    unfolding after_mounts_def
  proof (rule unmount_mounts_inv [where I = ?I, OF _ i3])
    fix mp orig fs opts
    assume m: "(mp, orig, fs, opts) \<in> set ?ms" "\<not> sublist ''bind'' opts" "marker orig \<or> pat mp"
    then have "rm_cmd mp \<in> set (mount_cmds pat ?ms)"
      unfolding in_mount_cmds by blast
    then have "mp \<in> R1" by (simp add: R1_def c8_def c7_def)
    with m(1) show "unmount_keeps ?I sy [''umount''] mp \<and> removal_keeps ?I sy mp"
      by (intro conjI lost_unmount lost_removal assms(2) avfs)
  qed
  have i5: "?I (snd (find_loopbacks sy (snd (after_mounts sy True pat s))))"
    using assms(2) i4 by (simp add: find_loopbacks_snd lost_output)
  have i7: "?I (snd (after_groups sy True pat s))"
    unfolding after_groups_def
  proof (rule find_volume_groups_inv [where I = ?I])
    show "?I (snd (check_output sy [''pvdisplay'']
                     (snd (find_loopbacks sy (snd (after_mounts sy True pat s))))))"
      using assms(2) i5 by (rule lost_output)
  next
    fix pv vg backing s1
    assume "?I s1"
    with assms(2) show "?I (snd (check_output sy [''lvchange'', ''-a'', ''n'', vg] s1))
        \<and> ?I (snd (check_output sy [''losetup'', ''-d'', pv] s1))"
      by (simp add: lost_output)
  qed
  have i8: "?I (snd (after_base sy True pat s))"
    unfolding after_base_def
  proof (rule unmount_base_inv [where I = ?I, OF _ i7])
    fix mp orig fs opts
    assume m: "(mp, orig, fs, opts) \<in> set ?ms" "marker mp"
    then have "rm_cmd mp \<in> set (base_cmds ?ms)"
      unfolding in_base_cmds by blast
    then have "mp \<in> R1" by (simp add: R1_def c8_def)
    with m(1) show "unmount_keeps ?I sy [''fusermount'', ''-u''] mp \<and> removal_keeps ?I sy mp"
      by (intro conjI lost_unmount lost_removal assms(2) avfs)
  qed
  then obtain D1 where D1: "D1 \<subseteq> R1"
    "nodes (os (snd (after_base sy True pat s))) = filter (\<lambda>(k, v). k \<notin> D1) (nodes (os s))"
    unfolding lost_def base_def by blast
  have skip1: "\<forall>r \<in> D1. r \<in> set (glob glob_pattern (os s)) \<longrightarrow> pat r \<longrightarrow> rm_cmd r \<in> set c8"
  proof (intro ballI impI)
    fix r assume r: "r \<in> D1" "r \<in> set (glob glob_pattern (os s))" "pat r"
    from r(2) have "glob_pattern r" by (rule in_glob)
    with r(3) assms(3) have "r \<notin> A" unfolding A_def by force
    with r(1) D1(1) show "rm_cmd r \<in> set c8" unfolding R1_def by blast
  qed
  define c9 where "c9 = sweep pat (glob glob_pattern (os s)) c8"
  have g9: "fst (after_tmp sy True pat glob_pattern s) = c9"
    unfolding after_tmp_cmds g7 glob_filtered [OF D1(2)] c9_def c8_def [symmetric]
    using skip1 by (rule sweep_skip)
  define R2 where "R2 = R1 \<union> {r. rm_cmd r \<in> set c9}"
  let ?J = "lost R2 base"
  have j8: "?J (snd (after_base sy True pat s))"
    using _ i8 by (rule lost_mono) (simp add: R2_def)
  have j9: "?J (snd (after_tmp sy True pat glob_pattern s))"
    unfolding after_tmp_def
  proof (rule clean_tmp_inv [where I = ?J, OF _ j8])
    fix f s1
    assume f: "f \<in> set (glob glob_pattern (os (snd (after_base sy True pat s))))" "pat f"
      and s1: "?J s1"
    from f have "rm_cmd f \<in> set (fst (after_tmp sy True pat glob_pattern s))"
      unfolding after_tmp_cmds by (rule sweep_covers)
    then have "f \<in> R2" by (simp add: R2_def g9)
    then show "?J (snd (os_rmdir f s1))" using s1 by (rule lost_rmdir)
  qed
  then obtain D2 where D2: "D2 \<subseteq> R2"
    "nodes (os (snd (after_tmp sy True pat glob_pattern s)))
       = filter (\<lambda>(k, v). k \<notin> D2) (nodes (os s))"
    unfolding lost_def base_def by blast
  have skip2: "\<forall>r \<in> D2. r \<in> set (glob image_mounter_glob (os s)) \<longrightarrow> True
                 \<longrightarrow> rm_cmd r \<in> set c9"
  proof (intro ballI impI)
    fix r assume r: "r \<in> D2" "r \<in> set (glob image_mounter_glob (os s))"
    from r(2) have "image_mounter_glob r" by (rule in_glob)
    then have "r \<notin> A" unfolding A_def using avfs_not_swept by blast
    with r(1) D2(1) have "rm_cmd r \<in> set c8 \<or> rm_cmd r \<in> set c9"
      unfolding R2_def R1_def by blast
    then show "rm_cmd r \<in> set c9" unfolding c9_def by (auto intro: sweep_keeps)
  qed
  from force_clean_returns [OF assms(4)]
  have "cmds = fst (after_sweep sy True pat glob_pattern s)" by simp
  also have "\<dots> = sweep (\<lambda>p. True) (glob image_mounter_glob (os s)) c9"
    unfolding after_sweep_cmds g9 glob_filtered [OF D2(2)]
    using skip2 by (rule sweep_skip)
  finally have cmds: "cmds = plan pat ?ms L P (glob glob_pattern (os s))
                              (glob image_mounter_glob (os s))"
    by (simp add: plan_def c9_def c8_def c7_def)
  have w3: "nodes (snd (run sy [''pvdisplay''] (snd (run sy [''losetup'', ''-a'']
               (snd (run sy [''mount''] (os s))))))) = nodes (os s)"
    by (simp add: quiet_nodes(4) [OF assms(2)])
  show ?thesis
    unfolding force_clean_dry Let_def
    by (simp add: cmds L P glob_nodes [OF w3] w3)
qed

text \<open>
  An instance: one image mounted on an empty directory.  The executing run unmounts it and
  removes the directory; the dry run still finds the directory under \<open>/tmp/im_*\<close>, but
  its removal is on the list already.
\<close>

definition one_image :: "string list" where
  "one_image = [''/dev/loop0 on /tmp/im_1_a type ext4 (rw)'']"

definition one_image_state :: state where
  "one_image_state =
     \<lparr>os = \<lparr>nodes = [(''/tmp/im_1_a'', Dir)], mounted = [''/tmp/im_1_a'']\<rparr>,
      environ = Map.empty, trace = []\<rparr>"

lemma host_frozen: "frozen (host mount_out losetup_out pvdisplay_out)"
  by (simp add: frozen_def loopbacks_of_def pvdisplay_of_def host_def host_run_def)

lemma host_quiet: "quiet (host mount_out losetup_out pvdisplay_out)"
  by (simp add: quiet_def host_def host_run_def)

theorem dry_run_same_list_witness:
  "fst (force_clean (host one_image [] []) True default_pattern default_glob one_image_state)
     = Inr [''umount /tmp/im_1_a'', ''rm -Rf /tmp/im_1_a'']
   \<and> nodes (os (snd (force_clean (host one_image [] []) True default_pattern default_glob
                       one_image_state))) = []
   \<and> fst (force_clean (host one_image [] []) False default_pattern default_glob one_image_state)
     = Inr [''umount /tmp/im_1_a'', ''rm -Rf /tmp/im_1_a'']
   \<and> trace (snd (force_clean (host one_image [] []) False default_pattern default_glob
                    one_image_state))
     = [Putenv ''LVM_SUPPRESS_FD_WARNINGS'' ''1'', Exec [''mount''],
        Exec [''losetup'', ''-a''], Exec [''pvdisplay'']]
   \<and> nodes (os (snd (force_clean (host one_image [] []) False default_pattern default_glob
                       one_image_state))) = [(''/tmp/im_1_a'', Dir)]"
proof -
  let ?H = "host one_image [] []"
  have ms: "mounts_of ?H (os one_image_state) = [(''/tmp/im_1_a'', ''/dev/loop0'', ''ext4'', ''rw'')]"
    by code_simp
  have g: "\<not> default_glob (path_join ''/tmp/im_1_a'' ''avfs'')"
    by code_simp
  have a: "\<forall>mp orig fs opts. (mp, orig, fs, opts) \<in> set (mounts_of ?H (os one_image_state))
           \<longrightarrow> \<not> (default_glob (path_join mp ''avfs'') \<and> default_pattern (path_join mp ''avfs''))"
    unfolding ms using g by simp
  have x: "fst (force_clean ?H True default_pattern default_glob one_image_state)
             = Inr [''umount /tmp/im_1_a'', ''rm -Rf /tmp/im_1_a'']"
    by code_simp
  have n: "nodes (os (snd (force_clean ?H True default_pattern default_glob one_image_state))) = []"
    by code_simp
  have t: "trace one_image_state = []" "nodes (os one_image_state) = [(''/tmp/im_1_a'', Dir)]"
    by (simp_all add: one_image_state_def)
  from dry_run_same_list [OF host_frozen host_quiet a x] x n t show ?thesis
    by simp
qed

text \<open>
  C4 as it is worded fails.  The caller passes \<open>/tmp/im_*/*\<close> as \<open>glob_pattern\<close>; the
  mount point \<open>/tmp/im_1_a\<close> has an \<open>avfs\<close> entry.  The dry run changes the process
  environment and runs three commands, and its list has an entry for the \<open>avfs\<close> path,
  which the executing run has removed before it lists the directories.
\<close>

definition im_children :: "string \<Rightarrow> bool" where
  "im_children p =
     (take 8 p = ''/tmp/im_'' \<and>
      (let r = drop 8 p;
           d = takeWhile (\<lambda>c. c \<noteq> CHR ''/'') r;
           f = drop (length d + 1) r
       in length d < length r \<and> f \<noteq> [] \<and> CHR ''/'' \<notin> set f \<and> take 1 f \<noteq> ''.''))"

definition avfs_state :: state where
  "avfs_state =
     \<lparr>os = \<lparr>nodes = [(''/tmp/im_1_a'', Dir), (''/tmp/im_1_a/avfs'', File)],
            mounted = [''/tmp/im_1_a'']\<rparr>,
      environ = Map.empty, trace = []\<rparr>"

theorem dry_run_differs:
  "environ avfs_state ''LVM_SUPPRESS_FD_WARNINGS'' = None
   \<and> environ (snd (force_clean (host one_image [] []) False default_pattern im_children
                      avfs_state)) ''LVM_SUPPRESS_FD_WARNINGS'' = Some ''1''
   \<and> trace (snd (force_clean (host one_image [] []) False default_pattern im_children
                    avfs_state))
     = [Putenv ''LVM_SUPPRESS_FD_WARNINGS'' ''1'', Exec [''mount''],
        Exec [''losetup'', ''-a''], Exec [''pvdisplay'']]
   \<and> fst (force_clean (host one_image [] []) False default_pattern im_children avfs_state)
     = Inr [''umount /tmp/im_1_a'', ''rm -Rf /tmp/im_1_a'', ''rm -Rf /tmp/im_1_a/avfs'']
   \<and> fst (force_clean (host one_image [] []) True default_pattern im_children avfs_state)
     = Inr [''umount /tmp/im_1_a'', ''rm -Rf /tmp/im_1_a'']"
  by code_simp

section \<open>Failures of a release\<close>

text \<open>
  C3.  The image is mounted on \<open>/tmp/im_1_a\<close>, and the directory under the mount holds a
  file.  \<open>umount\<close> succeeds, \<open>os.rmdir\<close> in \<open>clean_unmount\<close> finds the directory not
  empty, and the exception leaves \<open>force_clean\<close>: no list is returned, and the two
  listing commands and the sweeps that were to follow are not run.
\<close>

definition left_behind :: state where
  "left_behind =
     \<lparr>os = \<lparr>nodes = [(''/tmp/im_1_a'', Dir), (''/tmp/im_1_a/left'', File)],
            mounted = [''/tmp/im_1_a'']\<rparr>,
      environ = Map.empty, trace = []\<rparr>"

theorem force_clean_raises:
  "fst (force_clean (host one_image [] []) True default_pattern default_glob left_behind)
     = Inl ENOTEMPTY
   \<and> trace (snd (force_clean (host one_image [] []) True default_pattern default_glob
                    left_behind))
     = [Putenv ''LVM_SUPPRESS_FD_WARNINGS'' ''1'', Exec [''mount''],
        Exec [''umount'', ''/tmp/im_1_a''], Rmdir ''/tmp/im_1_a'']"
  by code_simp

section \<open>Entries listed twice\<close>

text \<open>
  C5.  A mount whose source and whose mount point both contain \<open>/image_mounter_\<close> is
  listed by the stage for mounts and again by the stage for base images, and neither
  looks at what is on the list: \<open>rm -Rf /tmp/image_mounter_2\<close> is listed twice.
\<close>

definition image_in_image :: "string list" where
  "image_in_image = [''/tmp/image_mounter_1/ewf1 on /tmp/image_mounter_2 type fuse (rw)'']"

theorem removal_listed_twice:
  "fst (force_clean (host image_in_image [] []) False default_pattern default_glob bare_state)
     = Inr [''umount /tmp/image_mounter_2'', ''rm -Rf /tmp/image_mounter_2'',
            ''fusermount -u /tmp/image_mounter_2'', ''rm -Rf /tmp/image_mounter_2'']
   \<and> \<not> distinct [''umount /tmp/image_mounter_2'', ''rm -Rf /tmp/image_mounter_2'',
                   ''fusermount -u /tmp/image_mounter_2'', ''rm -Rf /tmp/image_mounter_2'']"
  by code_simp

section \<open>The sweep of \<open>/tmp/image_mounter_*\<close>\<close>

text \<open>
  C7.  A directory \<open>/tmp/image_mounter_1\<close> that holds a file is listed for removal with
  \<open>rm -Rf\<close>, but the executing run calls \<open>os.rmdir\<close>, which fails on a directory that is
  not empty; the exception is dropped, and the directory and its file are still there.
\<close>

definition leftover :: state where
  "leftover =
     \<lparr>os = \<lparr>nodes = [(''/tmp/image_mounter_1'', Dir), (''/tmp/image_mounter_1/file.dd'', File)],
            mounted = []\<rparr>,
      environ = Map.empty, trace = []\<rparr>"

theorem sweep_leaves_contents:
  "fst (force_clean (host [] [] []) True default_pattern default_glob leftover)
     = Inr [''rm -Rf /tmp/image_mounter_1'']
   \<and> trace (snd (force_clean (host [] [] []) True default_pattern default_glob leftover))
     = [Putenv ''LVM_SUPPRESS_FD_WARNINGS'' ''1'', Exec [''mount''],
        Exec [''losetup'', ''-a''], Exec [''pvdisplay''], Rmdir ''/tmp/image_mounter_1'']
   \<and> nodes (os (snd (force_clean (host [] [] []) True default_pattern default_glob leftover)))
     = [(''/tmp/image_mounter_1'', Dir), (''/tmp/image_mounter_1/file.dd'', File)]"
  by code_simp

end
